theory Spec2Isabelle
  imports Main "HOL-Library.Word"
begin

section \<open>The worker: class ThreadProgress\<close>

text \<open>
  The enum constant \<^verbatim>\<open>ITERATIONS = 10\<close>. It is compared with the \<^verbatim>\<open>unsigned int\<close>
  counter of a worker (a 32-bit word here) and with the \<^verbatim>\<open>int\<close> loop variable of
  \<^verbatim>\<open>thread_function\<close>, which only takes the values 0..10 (a \<open>nat\<close> here).
\<close>

definition ITERATIONS :: nat where
  "ITERATIONS = 10"

text \<open>
  The member data of \<^verbatim>\<open>ThreadProgress\<close>; the fields are the members \<^verbatim>\<open>thread_\<close>,
  \<^verbatim>\<open>id_\<close>, \<^verbatim>\<open>progress_\<close> and \<^verbatim>\<open>signal_finished_\<close> (a name cannot end with an
  underscore here, so the suffix is \<open>_m\<close>).
  \<^item> \<open>thread_m\<close> is a pointer to a \<^verbatim>\<open>std::thread\<close>: \<open>None\<close> is \<^verbatim>\<open>nullptr\<close>,
    \<open>Some h\<close> the handle of a thread object.
  \<^item> \<open>progress_m\<close> is an \<^verbatim>\<open>unsigned int\<close>: \<open>+\<close> wraps modulo \<open>2 ^ 32\<close>.
  \<^item> \<open>signal_finished_m\<close> is the list of connected slots. The only slot ever connected is
    \<^verbatim>\<open>Application::on_progress_finished\<close> bound to a \<^verbatim>\<open>ThreadProgress*\<close>, so a slot
    is that bound pointer (an address in the heap below).
  \<^item> \<^verbatim>\<open>signal_increment_\<close> is connected by the constructor, once and for all, to
    \<^verbatim>\<open>progress_increment\<close> of the same object, so it needs no field.
\<close>

record ThreadProgress =
  thread_m :: "nat option"
  id_m :: int
  progress_m :: "32 word"
  signal_finished_m :: "nat list"

text \<open>The lines the program prints, and the critical message of a failed GLib check.\<close>

datatype line =
    Created int nat
  | Emitted int int
  | Received int "32 word"
  | Finished int
  | Launching nat
  | Separator
  | Critical

definition ThreadProgress_ctor :: "int \<Rightarrow> ThreadProgress" where
  "ThreadProgress_ctor the_id =
     \<lparr>thread_m = None, id_m = the_id, progress_m = 0, signal_finished_m = []\<rparr>"

text \<open>
  \<^verbatim>\<open>g_return_if_fail\<close> is a macro of GLib, outside this repository. When its condition
  is false it logs a message of level critical and returns from the enclosing function.
  A critical message aborts the process only where the environment has made criticals
  fatal (\<^verbatim>\<open>G_DEBUG=fatal-criticals\<close>, \<^verbatim>\<open>g_log_set_always_fatal\<close>); that setting is the
  parameter \<open>fatal_criticals\<close>, which GLib leaves off unless asked.
\<close>

datatype check = Passed | Critical_logged | Aborted

definition g_return_if_fail :: "bool \<Rightarrow> bool \<Rightarrow> check" where
  "g_return_if_fail fatal_criticals cond =
     (if cond then Passed else if fatal_criticals then Aborted else Critical_logged)"

definition ThreadProgress_dtor :: "bool \<Rightarrow> ThreadProgress \<Rightarrow> check" where
  "ThreadProgress_dtor fatal_criticals w = g_return_if_fail fatal_criticals (thread_m w = None)"

definition unfinished :: "ThreadProgress \<Rightarrow> bool" where
  "unfinished w = (progress_m w < of_nat ITERATIONS)"

text \<open>
  \<^verbatim>\<open>progress_increment\<close>: the new object, the line printed, and the slots that
  \<^verbatim>\<open>signal_finished_()\<close> calls (none when the signal is not emitted).
\<close>

definition progress_increment :: "ThreadProgress \<Rightarrow> ThreadProgress \<times> line \<times> nat list" where
  "progress_increment w =
     (let w' = w\<lparr>progress_m := progress_m w + 1\<rparr>
      in (w', Received (id_m w') (progress_m w'),
          if of_nat ITERATIONS \<le> progress_m w' then signal_finished_m w' else []))"

text \<open>
  \<^verbatim>\<open>Glib::Rand::get_int_range\<close> belongs to glibmm, outside this repository; it wraps
  \<^verbatim>\<open>g_rand_int_range (rand, begin, end)\<close>, which returns \<^verbatim>\<open>begin\<close> plus a raw 32-bit
  random number reduced modulo \<^verbatim>\<open>end - begin\<close>: a value of \<^verbatim>\<open>[begin..end-1]\<close>. The raw
  number \<open>r\<close> is the parameter; with \<^verbatim>\<open>end <= begin\<close> the function returns \<^verbatim>\<open>begin\<close>.
\<close>

definition get_int_range :: "int \<Rightarrow> int \<Rightarrow> 32 word \<Rightarrow> int" where
  "get_int_range b e r = (if e \<le> b then b else b + int (unat r mod nat (e - b)))"

text \<open>
  What the worker thread does: sleep, print, emit \<^verbatim>\<open>signal_increment_\<close>.
\<close>

datatype action = Usleep int | Cout line | Notify

definition loop_body :: "int \<Rightarrow> nat \<Rightarrow> 32 word \<Rightarrow> action list" where
  "loop_body the_id i r =
     [Usleep (get_int_range 2000 20000 r), Cout (Emitted the_id (int i + 1)), Notify]"

text \<open>
  \<^verbatim>\<open>thread_function\<close>, from loop counter \<open>i\<close> on. \<open>rand\<close> gives the raw random number
  of each iteration (\<^verbatim>\<open>Glib::Rand rand\<close> is seeded by the system).
\<close>

function thread_function_from :: "int \<Rightarrow> (nat \<Rightarrow> 32 word) \<Rightarrow> nat \<Rightarrow> action list" where
  "thread_function_from the_id rand i =
     (if i < ITERATIONS
      then loop_body the_id i (rand i) @ thread_function_from the_id rand (Suc i)
      else [])"
  by pat_completeness auto
termination
  by (relation "measure (\<lambda>(the_id, rand, i). ITERATIONS - i)") auto

declare thread_function_from.simps [simp del]

definition thread_function :: "ThreadProgress \<Rightarrow> (nat \<Rightarrow> 32 word) \<Rightarrow> action list" where
  "thread_function w rand = thread_function_from (id_m w) rand 0"

section \<open>The program state\<close>

text \<open>
  A running thread: the \<^verbatim>\<open>this\<close> pointer its lambda captured and the loop counter
  \<^verbatim>\<open>i\<close> of \<^verbatim>\<open>thread_function\<close>. The thread has returned when \<open>iter = ITERATIONS\<close>.
\<close>

record std_thread =
  this :: nat
  iter :: nat

text \<open>
  \<^item> \<open>heap\<close>: the \<^verbatim>\<open>ThreadProgress\<close> objects made by \<^verbatim>\<open>new\<close>, by address; a deleted
    object is \<open>None\<close>, and \<^verbatim>\<open>new\<close> takes the next address.
  \<^item> \<open>progress_threads\<close>: the vector \<^verbatim>\<open>progress_threads_\<close> of pointers
    (\<open>None\<close> is \<^verbatim>\<open>nullptr\<close>).
  \<^item> \<open>quit_called\<close>, \<open>timeouts\<close>, \<open>clock\<close>, \<open>pipe\<close>: the main loop \<^verbatim>\<open>main_loop_\<close> and
    its context: whether \<^verbatim>\<open>quit()\<close> was called, the deadlines (ms) of the one-shot
    timeout handlers that call \<^verbatim>\<open>launch_threads\<close>, the time (ms), and the
    \<^verbatim>\<open>Glib::Dispatcher\<close> notifications sent and not yet delivered (the address of
    the object whose \<^verbatim>\<open>signal_increment_\<close> was emitted).
  \<^item> \<open>threads\<close>: the threads created, by handle.
  \<^item> \<open>out\<close>: the lines printed so far.
\<close>

record world =
  heap :: "ThreadProgress option list"
  progress_threads :: "nat option list"
  quit_called :: bool
  timeouts :: "nat list"
  clock :: nat
  pipe :: "nat list"
  threads :: "std_thread list"
  out :: "line list"

text \<open>
  What the model does not follow further: a null or dangling pointer dereferenced, a
  \<^verbatim>\<open>join()\<close> that would block the main thread while the worker still iterates, and a
  process aborted by a fatal critical message.
\<close>

datatype fault = Null_pointer | Dangling_pointer | Join_blocks | Process_aborted

definition bindF :: "fault + 'a \<Rightarrow> ('a \<Rightarrow> fault + 'b) \<Rightarrow> fault + 'b" where
  "bindF m f = (case m of Inl e \<Rightarrow> Inl e | Inr x \<Rightarrow> f x)"

definition deref :: "world \<Rightarrow> nat \<Rightarrow> ThreadProgress option" where
  "deref s a = (if a < length (heap s) then heap s ! a else None)"

definition store :: "nat \<Rightarrow> ThreadProgress \<Rightarrow> world \<Rightarrow> world" where
  "store a w s = s\<lparr>heap := (heap s)[a := Some w]\<rparr>"

definition launch :: "nat \<Rightarrow> world \<Rightarrow> fault + world" where
  "launch a s =
     (case deref s a of
        None \<Rightarrow> Inl Dangling_pointer
      | Some w \<Rightarrow>
          let h = length (threads s)
          in Inr ((store a (w\<lparr>thread_m := Some h\<rparr>) s)
                    \<lparr>threads := threads s @ [\<lparr>this = a, iter = 0\<rparr>],
                     out := out s @ [Created (id_m w) h]\<rparr>))"

definition join :: "nat \<Rightarrow> world \<Rightarrow> fault + world" where
  "join a s =
     (case deref s a of
        None \<Rightarrow> Inl Dangling_pointer
      | Some w \<Rightarrow>
          (case thread_m w of
             None \<Rightarrow> Inl Null_pointer
           | Some h \<Rightarrow>
               if h < length (threads s)
               then if iter (threads s ! h) < ITERATIONS then Inl Join_blocks
                    else Inr (store a (w\<lparr>thread_m := None\<rparr>) s)
               else Inl Dangling_pointer))"

section \<open>The coordinator: class Application\<close>

text \<open>
  \<^verbatim>\<open>std::find_if\<close> with \<^verbatim>\<open>ThreadProgress::unfinished\<close> over the vector: whether an
  unfinished worker is found. It stops at the first one.
\<close>

fun find_unfinished :: "nat option list \<Rightarrow> world \<Rightarrow> fault + bool" where
  "find_unfinished [] s = Inr False"
| "find_unfinished (p # ps) s =
     (case p of
        None \<Rightarrow> Inl Null_pointer
      | Some a \<Rightarrow>
          (case deref s a of
             None \<Rightarrow> Inl Dangling_pointer
           | Some w \<Rightarrow> if unfinished w then Inr True else find_unfinished ps s))"

definition on_progress_finished :: "nat \<Rightarrow> world \<Rightarrow> fault + world" where
  "on_progress_finished p s =
     bindF (join p s) (\<lambda>s1.
       case deref s1 p of
         None \<Rightarrow> Inl Dangling_pointer
       | Some w \<Rightarrow>
           let s2 = s1\<lparr>out := out s1 @ [Finished (id_m w)]\<rparr>
           in bindF (find_unfinished (progress_threads s2) s2) (\<lambda>found.
                Inr (if found then s2 else s2\<lparr>quit_called := True\<rparr>)))"

text \<open>Emitting \<^verbatim>\<open>signal_finished_\<close>: the connected slots are called in order.\<close>

fun emit_finished :: "nat list \<Rightarrow> world \<Rightarrow> fault + world" where
  "emit_finished [] s = Inr s"
| "emit_finished (p # ps) s = bindF (on_progress_finished p s) (emit_finished ps)"

text \<open>
  The main loop delivers one notification of the \<^verbatim>\<open>Glib::Dispatcher\<close> of the object at
  \<open>a\<close>: \<^verbatim>\<open>progress_increment\<close> runs, and the slots of \<^verbatim>\<open>signal_finished_\<close> if it emits.
\<close>

definition deliver :: "nat \<Rightarrow> world \<Rightarrow> fault + world" where
  "deliver a s =
     (case deref s a of
        None \<Rightarrow> Inl Dangling_pointer
      | Some w \<Rightarrow>
          (case progress_increment w of
             (w', l, slots) \<Rightarrow>
               emit_finished slots ((store a w' s)\<lparr>out := out s @ [l]\<rparr>)))"

text \<open>\<^verbatim>\<open>std::for_each\<close> with \<^verbatim>\<open>ThreadProgress::launch\<close> over the vector.\<close>

fun launch_all :: "nat option list \<Rightarrow> world \<Rightarrow> fault + world" where
  "launch_all [] s = Inr s"
| "launch_all (p # ps) s =
     (case p of
        None \<Rightarrow> Inl Null_pointer
      | Some a \<Rightarrow> bindF (launch a s) (launch_all ps))"

definition launch_threads :: "world \<Rightarrow> fault + world" where
  "launch_threads s =
     bindF (launch_all (progress_threads s)
              (s\<lparr>out := out s @ [Launching (length (progress_threads s))]\<rparr>))
       (\<lambda>s1. Inr (s1\<lparr>out := out s1 @ [Separator]\<rparr>))"

text \<open>
  The catch-all handler of the constructor and the destructor both run
  \<^verbatim>\<open>std::for_each\<close> with \<^verbatim>\<open>DeletePtr\<close>: each pointer is deleted. \<^verbatim>\<open>delete\<close> of
  \<^verbatim>\<open>nullptr\<close> does nothing; otherwise the destructor of the object runs (its check
  may log a critical message, or abort the process) and the object is freed.
\<close>

definition delete_ptr :: "bool \<Rightarrow> nat option \<Rightarrow> world \<Rightarrow> fault + world" where
  "delete_ptr fatal_criticals p s =
     (case p of
        None \<Rightarrow> Inr s
      | Some a \<Rightarrow>
          (case deref s a of
             None \<Rightarrow> Inl Dangling_pointer
           | Some w \<Rightarrow>
               (case ThreadProgress_dtor fatal_criticals w of
                  Passed \<Rightarrow> Inr (s\<lparr>heap := (heap s)[a := None]\<rparr>)
                | Critical_logged \<Rightarrow>
                    Inr (s\<lparr>heap := (heap s)[a := None], out := out s @ [Critical]\<rparr>)
                | Aborted \<Rightarrow> Inl Process_aborted)))"

fun delete_all :: "bool \<Rightarrow> nat option list \<Rightarrow> world \<Rightarrow> fault + world" where
  "delete_all fatal_criticals [] s = Inr s"
| "delete_all fatal_criticals (p # ps) s =
     bindF (delete_ptr fatal_criticals p s) (delete_all fatal_criticals ps)"

text \<open>
  The two places of the constructor's loop body that can throw: \<^verbatim>\<open>new ThreadProgress\<close>
  (the allocation, or the constructor's own \<^verbatim>\<open>connect\<close>: then no object exists) and the
  \<^verbatim>\<open>connect\<close> to \<^verbatim>\<open>signal_finished()\<close>, after the pointer was stored in the vector.
  \<open>throws i st\<close> says whether iteration \<open>i\<close> throws at place \<open>st\<close>.
\<close>

datatype place = At_new | At_connect

text \<open>
  The loop of the constructor from index \<open>i\<close> on: \<open>Inl\<close> is the state when an
  exception leaves the \<^verbatim>\<open>try\<close> block, \<open>Inr\<close> the state when the loop ends.
\<close>

function ctor_loop :: "(nat \<Rightarrow> place \<Rightarrow> bool) \<Rightarrow> nat \<Rightarrow> world \<Rightarrow> world + world" where
  "ctor_loop throws i s =
     (if i < length (progress_threads s)
      then if throws i At_new then Inl s
           else let a = length (heap s);
                    progress = ThreadProgress_ctor (int i + 1);
                    s1 = s\<lparr>heap := heap s @ [Some progress],
                           progress_threads := (progress_threads s)[i := Some a]\<rparr>
                in if throws i At_connect then Inl s1
                   else ctor_loop throws (Suc i)
                          (store a (progress\<lparr>signal_finished_m :=
                                      signal_finished_m progress @ [a]\<rparr>) s1)
      else Inr s)"
  by pat_completeness auto
termination
  by (relation "measure (\<lambda>(throws, i, s). length (progress_threads s) - i)")
     (auto simp: store_def)

datatype construction = Constructed world | Rethrown world | Broken fault

definition Application_ctor :: "bool \<Rightarrow> (nat \<Rightarrow> place \<Rightarrow> bool) \<Rightarrow> construction" where
  "Application_ctor fatal_criticals throws =
     (case ctor_loop throws 0
             \<lparr>heap = [], progress_threads = replicate 4 None, quit_called = False,
              timeouts = [], clock = 0, pipe = [], threads = [], out = []\<rparr> of
        Inr s \<Rightarrow> Constructed s
      | Inl s \<Rightarrow>
          (case delete_all fatal_criticals (progress_threads s) s of
             Inl f \<Rightarrow> Broken f
           | Inr s' \<Rightarrow> Rethrown s'))"

definition Application_dtor :: "bool \<Rightarrow> world \<Rightarrow> fault + world" where
  "Application_dtor fatal_criticals s = delete_all fatal_criticals (progress_threads s) s"

section \<open>The main loop\<close>

text \<open>
  A one-shot timeout handler that is due calls \<^verbatim>\<open>launch_threads\<close> and is removed.
\<close>

fun fire :: "nat list \<Rightarrow> world \<Rightarrow> fault + world" where
  "fire [] s = Inr s"
| "fire (d # ds) s = bindF (launch_threads s) (fire ds)"

definition tick :: "nat \<Rightarrow> world \<Rightarrow> fault + world" where
  "tick dt s =
     (let now = clock s + dt
      in fire (filter (\<lambda>d. d \<le> now) (timeouts s))
              (s\<lparr>clock := now, timeouts := filter (\<lambda>d. now < d) (timeouts s)\<rparr>))"

text \<open>The effect of one action of a worker thread whose object is at \<open>a\<close>.\<close>

fun perform :: "nat \<Rightarrow> world \<Rightarrow> action \<Rightarrow> world" where
  "perform a s (Usleep d) = s"
| "perform a s (Cout l) = s\<lparr>out := out s @ [l]\<rparr>"
| "perform a s Notify = s\<lparr>pipe := pipe s @ [a]\<rparr>"

text \<open>
  Thread \<open>h\<close> runs one iteration of the loop of \<^verbatim>\<open>thread_function\<close>, with raw random
  number \<open>r\<close>; a thread that has returned (or does not exist) does nothing.
\<close>

definition work :: "nat \<Rightarrow> 32 word \<Rightarrow> world \<Rightarrow> fault + world" where
  "work h r s =
     (if h < length (threads s) \<and> iter (threads s ! h) < ITERATIONS
      then let t = threads s ! h
           in (case deref s (this t) of
                 None \<Rightarrow> Inl Dangling_pointer
               | Some w \<Rightarrow>
                   Inr (foldl (perform (this t))
                          (s\<lparr>threads := (threads s)[h := t\<lparr>iter := Suc (iter t)\<rparr>]\<rparr>)
                          (loop_body (id_m w) (iter t) r)))
      else Inr s)"

text \<open>
  What can happen next, in any order: the main loop wakes up after \<open>dt\<close> ms and runs
  the timeout handlers that are due; thread \<open>h\<close> runs one iteration; the main loop
  delivers one pending notification of the object at \<open>a\<close>. The main loop handles
  nothing once \<^verbatim>\<open>quit()\<close> was called.
\<close>

datatype event = Tick nat | Work nat "32 word" | Dispatch nat

fun step :: "event \<Rightarrow> world \<Rightarrow> fault + world" where
  "step (Tick dt) s = (if quit_called s then Inr s else tick dt s)"
| "step (Work h r) s = work h r s"
| "step (Dispatch a) s =
     (if quit_called s \<or> a \<notin> set (pipe s) then Inr s
      else deliver a (s\<lparr>pipe := remove1 a (pipe s)\<rparr>))"

fun main_loop_run :: "event list \<Rightarrow> world \<Rightarrow> fault + world" where
  "main_loop_run [] s = Inr s"
| "main_loop_run (e # es) s = bindF (step e s) (main_loop_run es)"

text \<open>
  \<^verbatim>\<open>Application::run\<close>: the one-shot timeout handler for \<^verbatim>\<open>launch_threads\<close> is installed
  with 3000 ms, then the main loop runs. The result is the state after the events
  \<open>es\<close>; \<^verbatim>\<open>run()\<close> has returned in a state with \<open>quit_called\<close>.
\<close>

definition run :: "event list \<Rightarrow> world \<Rightarrow> fault + world" where
  "run es s = main_loop_run es (s\<lparr>timeouts := timeouts s @ [clock s + 3000]\<rparr>)"

section \<open>Observations and the invariant of the run\<close>

text \<open>
  The \<open>i\<close>-th worker of the application: the object its vector points to at
  index \<open>i\<close>, if there is one.
\<close>

definition worker :: "world \<Rightarrow> nat \<Rightarrow> ThreadProgress option" where
  "worker s i =
     (if i < length (progress_threads s)
      then (case progress_threads s ! i of None \<Rightarrow> None | Some a \<Rightarrow> deref s a)
      else None)"

text \<open>
  Lines of the output, by kind: the line a worker thread with a given id prints before
  each notification it sends, the line \<^verbatim>\<open>progress_increment\<close> prints for each
  notification delivered, and the line \<^verbatim>\<open>launch_threads\<close> prints each time it runs.
\<close>

definition is_emitted :: "int \<Rightarrow> line \<Rightarrow> bool" where
  "is_emitted i l = (case l of Emitted j k \<Rightarrow> j = i | _ \<Rightarrow> False)"

definition is_received :: "int \<Rightarrow> line \<Rightarrow> bool" where
  "is_received i l = (case l of Received j k \<Rightarrow> j = i | _ \<Rightarrow> False)"

definition is_launching :: "line \<Rightarrow> bool" where
  "is_launching l = (case l of Launching n \<Rightarrow> True | _ \<Rightarrow> False)"

definition is_emitted_line :: "line \<Rightarrow> bool" where
  "is_emitted_line l = (case l of Emitted j k \<Rightarrow> True | _ \<Rightarrow> False)"

text \<open>
  A schedule on which the program runs to its end: the timeout comes due, each of the
  four threads runs its ten iterations, and the main loop delivers the forty
  notifications.
\<close>

definition full_run :: "event list" where
  "full_run =
     Tick 1000 # Tick 2500 # Tick 0 #
     concat (map (\<lambda>h. replicate 10 (Work h 5)) [0, 1, 2, 3]) @
     concat (map (\<lambda>a. replicate 10 (Dispatch a)) [0, 1, 2, 3])"

text \<open>The object at an address that is known to hold one.\<close>

definition obj :: "world \<Rightarrow> nat \<Rightarrow> ThreadProgress" where
  "obj s a = the (heap s ! a)"

text \<open>The application as its constructor leaves it when nothing throws.\<close>

definition constructed :: world where
  "constructed =
     \<lparr>heap = map (\<lambda>a. Some \<lparr>thread_m = None, id_m = int a + 1, progress_m = 0,
                              signal_finished_m = [a]\<rparr>) [0..<4],
      progress_threads = map Some [0..<4], quit_called = False,
      timeouts = [], clock = 0, pipe = [], threads = [], out = []\<rparr>"

text \<open>
  Before the timeout comes due the state is the constructed one with the timeout
  installed, at some time \<open>c\<close> before 3000 ms.
\<close>

definition waiting :: "nat \<Rightarrow> world" where
  "waiting c = constructed\<lparr>timeouts := [3000], clock := c\<rparr>"

definition idle :: "world \<Rightarrow> bool" where
  "idle s \<longleftrightarrow> (\<exists>c<3000. s = waiting c)"

text \<open>The state right after \<^verbatim>\<open>launch_threads\<close> ran, at time \<open>c\<close>.\<close>

definition just_launched :: "nat \<Rightarrow> world" where
  "just_launched c =
     \<lparr>heap = map (\<lambda>a. Some \<lparr>thread_m = Some a, id_m = int a + 1, progress_m = 0,
                              signal_finished_m = [a]\<rparr>) [0..<4],
      progress_threads = map Some [0..<4], quit_called = False,
      timeouts = [], clock = c, pipe = [],
      threads = map (\<lambda>a. \<lparr>this = a, iter = 0\<rparr>) [0..<4],
      out = Launching 4 # map (\<lambda>a. Created (int a + 1) a) [0..<4] @ [Separator]\<rparr>"

text \<open>
  What holds of the worker at address \<open>a\<close> and its thread once the threads are
  launched: the notifications delivered and pending add up to the iterations its thread
  has run, the thread handle is there exactly while the worker is unfinished, and the
  output has one line for each iteration, each delivery and the one finish.
\<close>

definition worker_ok :: "world \<Rightarrow> nat \<Rightarrow> bool" where
  "worker_ok s a \<longleftrightarrow>
     heap s ! a \<noteq> None \<and> id_m (obj s a) = int a + 1 \<and> signal_finished_m (obj s a) = [a] \<and>
     this (threads s ! a) = a \<and> iter (threads s ! a) \<le> ITERATIONS \<and>
     unat (progress_m (obj s a)) + count_list (pipe s) a = iter (threads s ! a) \<and>
     thread_m (obj s a) = (if unfinished (obj s a) then Some a else None) \<and>
     length (filter (is_emitted (int a + 1)) (out s)) = iter (threads s ! a) \<and>
     length (filter (is_received (int a + 1)) (out s)) = unat (progress_m (obj s a)) \<and>
     count_list (out s) (Finished (int a + 1)) = (if unfinished (obj s a) then 0 else 1) \<and>
     count_list (out s) (Created (int a + 1) a) = 1"

definition launched :: "world \<Rightarrow> bool" where
  "launched s \<longleftrightarrow>
     progress_threads s = map Some [0..<4] \<and> length (heap s) = 4 \<and>
     timeouts s = [] \<and> 3000 \<le> clock s \<and> length (threads s) = 4 \<and>
     set (pipe s) \<subseteq> {0..<4} \<and>
     (\<forall>a<4. worker_ok s a) \<and>
     (quit_called s \<longleftrightarrow> (\<forall>a<4. \<not> unfinished (obj s a))) \<and>
     length (filter is_launching (out s)) = 1 \<and>
     length (filter is_emitted_line (out s)) = sum_list (map iter (threads s))"

definition inv :: "world \<Rightarrow> bool" where
  "inv s \<longleftrightarrow> idle s \<or> launched s"

text \<open>
  The sleeps a sequence of actions of a worker thread makes, in order, and the number of
  notifications it sends.
\<close>

fun sleeps :: "action list \<Rightarrow> int list" where
  "sleeps [] = []"
| "sleeps (Usleep d # as) = d # sleeps as"
| "sleeps (Cout l # as) = sleeps as"
| "sleeps (Notify # as) = sleeps as"

fun notifications :: "action list \<Rightarrow> nat" where
  "notifications [] = 0"
| "notifications (Notify # as) = Suc (notifications as)"
| "notifications (Usleep d # as) = notifications as"
| "notifications (Cout l # as) = notifications as"

section \<open>Basic facts\<close>

text \<open>
  The constructor without a throw gives the state \<open>constructed\<close>; from a waiting state
  a timer event keeps waiting or launches the four threads; each event keeps the
  invariant, so no run dereferences a null or dangling pointer, blocks in
  \<^verbatim>\<open>join()\<close> or aborts.
\<close>

lemma all4: "(\<forall>a<4. P a) \<longleftrightarrow> P (0::nat) \<and> P 1 \<and> P 2 \<and> P 3"
proof -
  have "a < 4 \<longleftrightarrow> a = 0 \<or> a = 1 \<or> a = 2 \<or> a = 3" for a :: nat by arith
  then show ?thesis by auto
qed

lemma upt4: "[0..<4] = [0, 1, 2, 3]"
  by (simp add: upt_rec)

lemma ctor_constructed:
  "Application_ctor fc throws = Constructed s \<Longrightarrow> s = constructed"
  by (simp add: Application_ctor_def constructed_def ThreadProgress_ctor_def store_def upt4 Let_def
      eval_nat_numeral split: if_splits sum.splits)

lemma launch_threads_constructed:
  "launch_threads (constructed\<lparr>timeouts := [], clock := c\<rparr>) = Inr (just_launched c)"
  by (simp add: launch_threads_def constructed_def upt4 launch_def deref_def store_def bindF_def
      just_launched_def)

lemma launched_just_launched: "3000 \<le> c \<Longrightarrow> launched (just_launched c)"
  by (simp add: launched_def worker_ok_def all4 upt4 obj_def unfinished_def ITERATIONS_def
      is_emitted_def is_received_def is_launching_def is_emitted_line_def just_launched_def)

lemma obj_waiting: "b < 4 \<Longrightarrow> progress_m (obj (waiting c) b) = 0"
  by (simp add: waiting_def constructed_def obj_def)

lemma obj_just_launched: "b < 4 \<Longrightarrow> progress_m (obj (just_launched c) b) = 0"
  by (simp add: just_launched_def obj_def)

lemma tick_idle:
  assumes "idle s"
  shows "\<exists>s'. tick dt s = Inr s' \<and> (idle s' \<or> launched s') \<and>
           (\<forall>b<4. progress_m (obj s' b) = progress_m (obj s b))"
proof -
  from assms obtain c where c: "c < 3000" and s: "s = waiting c"
    by (auto simp: idle_def)
  show ?thesis
  proof (cases "c + dt < 3000")
    case True
    then have "tick dt s = Inr (waiting (c + dt))"
      by (simp add: s tick_def waiting_def Let_def constructed_def)
    with True show ?thesis by (auto simp: idle_def s obj_waiting)
  next
    case False
    then have "tick dt s = launch_threads (constructed\<lparr>timeouts := [], clock := c + dt\<rparr>)"
      by (simp add: s tick_def waiting_def Let_def constructed_def bindF_def
          split: sum.splits)
    with False show ?thesis
      by (simp add: launch_threads_constructed launched_just_launched s obj_waiting
          obj_just_launched)
  qed
qed

lemma work_idle: "idle s \<Longrightarrow> work h r s = Inr s"
  by (auto simp: idle_def waiting_def work_def constructed_def)

lemma dispatch_idle: "idle s \<Longrightarrow> step (Dispatch a) s = Inr s"
  by (auto simp: idle_def waiting_def constructed_def)

lemma tick_launched:
  "launched s \<Longrightarrow> \<exists>s'. tick dt s = Inr s' \<and> launched s' \<and> heap s' = heap s"
  by (simp add: tick_def Let_def launched_def worker_ok_def obj_def)

lemma count_list_remove1_if:
  "count_list (remove1 a xs) b = (if a = b \<and> a \<in> set xs then count_list xs b - 1 else count_list xs b)"
  by (induction xs) auto

lemma count_list_pos: "a \<in> set xs \<Longrightarrow> 0 < count_list xs a"
  by (induction xs) auto

lemma find_unfinished_map:
  "\<forall>a\<in>set as. a < length (heap s) \<and> heap s ! a \<noteq> None \<Longrightarrow>
   find_unfinished (map Some as) s = Inr (\<exists>a\<in>set as. unfinished (obj s a))"
  by (induction as) (auto simp: deref_def obj_def)

lemma unfinished_unat: "unfinished w \<longleftrightarrow> unat (progress_m w) < 10"
  by (simp add: unfinished_def ITERATIONS_def word_less_nat_alt)

lemma raised_unat: "(of_nat ITERATIONS \<le> (x :: 32 word)) \<longleftrightarrow> 10 \<le> unat x"
  by (simp add: ITERATIONS_def word_le_nat_alt)

lemma unat_incr:
  fixes x :: "32 word"
  assumes "unat x < 4294967295"
  shows "unat (x + 1) = unat x + 1"
proof -
  have "unat x + unat (1 :: 32 word) < 2 ^ LENGTH(32)"
    using assms by simp
  then have "unat (x + 1) = unat x + unat (1 :: 32 word)"
    by (simp only: unat_add_lem)
  then show ?thesis by simp
qed

text \<open>
  The counter is an \<^verbatim>\<open>unsigned int\<close>: incremented at \<open>2 ^ 32 - 1\<close> it would wrap to
  0 and the worker would be unfinished again. No run comes near it: a worker is
  notified ten times (\<open>inv_progress_le\<close> below).
\<close>

lemma progress_increment_wraps:
  "progress_m (fst (progress_increment (w\<lparr>progress_m := 4294967295\<rparr>))) = 0 \<and>
   unfinished (fst (progress_increment (w\<lparr>progress_m := 4294967295\<rparr>)))"
  by (simp add: progress_increment_def Let_def unfinished_def ITERATIONS_def)

lemma sum_iter_update:
  "h < length ts \<Longrightarrow>
   sum_list (map iter (ts[h := (ts ! h)\<lparr>iter := Suc (iter (ts ! h))\<rparr>])) =
     Suc (sum_list (map iter ts))"
  by (induction ts arbitrary: h) (auto simp: nth_Cons' split: nat.splits)

lemma work_launched:
  assumes L: "launched s"
  shows "\<exists>s'. work h r s = Inr s' \<and> launched s' \<and> heap s' = heap s"
proof (cases "h < length (threads s) \<and> iter (threads s ! h) < ITERATIONS")
  case False
  then show ?thesis using L by (auto simp: work_def)
next
  case True
  from L have len: "length (threads s) = 4" and lh: "length (heap s) = 4"
    by (simp_all add: launched_def)
  with True have h4: "h < 4" by simp
  from L h4 have okh: "worker_ok s h" by (simp add: launched_def)
  then have th: "this (threads s ! h) = h" and hp: "heap s ! h \<noteq> None"
    and idh: "id_m (obj s h) = int h + 1"
    by (simp_all add: worker_ok_def)
  define s' where "s' = s\<lparr>threads := (threads s)[h := (threads s ! h)\<lparr>iter := Suc (iter (threads s ! h))\<rparr>],
      out := out s @ [Emitted (int h + 1) (int (iter (threads s ! h)) + 1)],
      pipe := pipe s @ [h]\<rparr>"
  from hp obtain w where w: "heap s ! h = Some w" by auto
  with idh have idw: "id_m w = int h + 1" by (simp add: obj_def)
  have eq: "work h r s = Inr s'"
    using True h4 lh w idw th
    by (simp add: work_def deref_def Let_def loop_body_def s'_def)
  have ok: "worker_ok s' b" if b: "b < 4" for b
  proof -
    from L b have "worker_ok s b" by (simp add: launched_def)
    then show ?thesis
      using True len b h4
      by (cases "b = h")
        (auto simp: worker_ok_def s'_def obj_def nth_list_update is_emitted_def is_received_def)
  qed
  have "launched s'"
    unfolding launched_def
  proof (intro conjI)
    show "\<forall>b<4. worker_ok s' b" using ok by blast
    show "set (pipe s') \<subseteq> {0..<4}" using L h4 by (auto simp: launched_def s'_def)
    show "quit_called s' = (\<forall>b<4. \<not> unfinished (obj s' b))"
      using L by (simp add: launched_def s'_def obj_def)
    show "length (filter is_emitted_line (out s')) = sum_list (map iter (threads s'))"
      using L True by (simp add: launched_def s'_def is_emitted_line_def sum_iter_update)
  qed (use L in \<open>simp_all add: launched_def s'_def is_launching_def\<close>)
  with eq show ?thesis by (simp add: s'_def)
qed

lemma deliver_launched:
  assumes L: "launched s" and nq: "\<not> quit_called s" and ap: "a \<in> set (pipe s)"
  shows "\<exists>s'. deliver a (s\<lparr>pipe := remove1 a (pipe s)\<rparr>) = Inr s' \<and> launched s' \<and>
           unat (progress_m (obj s a)) < 10 \<and>
           (\<forall>b<4. progress_m (obj s' b) =
                    (if b = a then progress_m (obj s b) + 1 else progress_m (obj s b)))"
proof -
  from L ap have a4: "a < 4" by (auto simp: launched_def)
  from L have lh: "length (heap s) = 4" and lt: "length (threads s) = 4"
    and pt: "progress_threads s = map Some [0..<4]"
    and ps: "set (pipe s) \<subseteq> {0..<4}"
    and la: "length (filter is_launching (out s)) = 1"
    and to: "timeouts s = []" and ck: "3000 \<le> clock s"
    and tot: "length (filter is_emitted_line (out s)) = sum_list (map iter (threads s))"
    and oks: "\<And>b. b < 4 \<Longrightarrow> worker_ok s b"
    by (simp_all add: launched_def)
  from oks[OF a4] obtain w where w: "heap s ! a = Some w"
    by (auto simp: worker_ok_def)
  then have ow: "obj s a = w" by (simp add: obj_def)
  from oks[OF a4] ow have idw: "id_m w = int a + 1" and sl: "signal_finished_m w = [a]"
    and it: "iter (threads s ! a) \<le> 10"
    and cnt: "unat (progress_m w) + count_list (pipe s) a = iter (threads s ! a)"
    and thr: "thread_m w = (if unfinished w then Some a else None)"
    and em: "length (filter (is_emitted (int a + 1)) (out s)) = iter (threads s ! a)"
    and re: "length (filter (is_received (int a + 1)) (out s)) = unat (progress_m w)"
    and fi: "count_list (out s) (Finished (int a + 1)) = (if unfinished w then 0 else 1)"
    and tt: "this (threads s ! a) = a"
    and cr: "count_list (out s) (Created (int a + 1) a) = 1"
    by (auto simp: worker_ok_def ITERATIONS_def)
  from ap have cp: "0 < count_list (pipe s) a" by (rule count_list_pos)
  with cnt it have lt10: "unat (progress_m w) < 10" by arith
  then have inc: "unat (progress_m w + 1) = unat (progress_m w) + 1"
    by (simp add: unat_incr)
  from lt10 thr have thr': "thread_m w = Some a" by (simp add: unfinished_unat)
  from lt10 fi have fi': "count_list (out s) (Finished (int a + 1)) = 0"
    by (simp add: unfinished_unat)
  define w' where "w' = w\<lparr>progress_m := progress_m w + 1\<rparr>"
  define s1 where "s1 = s\<lparr>pipe := remove1 a (pipe s), heap := (heap s)[a := Some w'],
      out := out s @ [Received (int a + 1) (progress_m w + 1)]\<rparr>"
  have frame1: "worker_ok s1 b" if b: "b < 4" and ne: "b \<noteq> a" for b
    using oks[OF b] ne a4 lh
    by (auto simp: worker_ok_def s1_def obj_def nth_list_update is_emitted_def is_received_def
        count_list_remove1_if)
  have pr1: "\<forall>b<4. progress_m (obj s1 b) =
        (if b = a then progress_m (obj s b) + 1 else progress_m (obj s b))"
    using a4 lh w by (simp add: s1_def obj_def w'_def nth_list_update)
  have ps1: "set (pipe s1) \<subseteq> {0..<4}"
    using ps set_remove1_subset[of a "pipe s"] by (auto simp: s1_def)
  show ?thesis
  proof (cases "unat (progress_m w) + 1 < 10")
    case True
    have eq: "deliver a (s\<lparr>pipe := remove1 a (pipe s)\<rparr>) = Inr s1"
      using True a4 lh w idw inc
      by (simp add: deliver_def deref_def progress_increment_def Let_def raised_unat
          store_def s1_def w'_def)
    have oka: "worker_ok s1 a"
      using True a4 lh inc ap cp cnt it thr' idw sl em re fi' tt cr
      by (simp add: worker_ok_def s1_def obj_def w'_def is_emitted_def is_received_def
          count_list_remove1_if unfinished_unat ITERATIONS_def)
    have un: "unfinished (obj s1 a)"
      using True a4 lh inc by (simp add: s1_def obj_def w'_def unfinished_unat)
    have "launched s1"
      unfolding launched_def
    proof (intro conjI)
      show "\<forall>b<4. worker_ok s1 b" using oka frame1 by blast
      show "quit_called s1 = (\<forall>b<4. \<not> unfinished (obj s1 b))"
        using nq un a4 by (auto simp: s1_def)
    qed (use pt lh to ck lt ps1 la tot in
        \<open>simp_all add: s1_def is_launching_def is_emitted_line_def\<close>)
    then show ?thesis using eq lt10 ow pr1 by blast
  next
    case False
    with lt10 have nine: "unat (progress_m w) = 9" by arith
    with cnt cp it have it10: "iter (threads s ! a) = 10" and c1: "count_list (pipe s) a = 1"
      by arith+
    define s3 where "s3 = s1\<lparr>heap := (heap s)[a := Some (w'\<lparr>thread_m := None\<rparr>)],
      out := out s1 @ [Finished (int a + 1)]\<rparr>"
    define s4 where "s4 = (if \<exists>b\<in>set [0..<4]. unfinished (obj s3 b) then s3
      else s3\<lparr>quit_called := True\<rparr>)"
    have hs3: "\<forall>b\<in>set [0..<4]. b < length (heap s3) \<and> heap s3 ! b \<noteq> None"
      using lh a4 oks by (auto simp: s3_def s1_def nth_list_update worker_ok_def)
    have pi: "progress_increment w = (w', Received (int a + 1) (progress_m w + 1), [a])"
      using nine inc sl idw by (simp add: progress_increment_def Let_def raised_unat w'_def)
    have d: "deliver a (s\<lparr>pipe := remove1 a (pipe s)\<rparr>) = on_progress_finished a s1"
      using a4 lh w
      by (simp add: deliver_def deref_def pi store_def s1_def bindF_def split: sum.splits)
    have j: "join a s1 = Inr (s1\<lparr>heap := (heap s)[a := Some (w'\<lparr>thread_m := None\<rparr>)]\<rparr>)"
      using a4 lh lt thr' it10
      by (simp add: join_def deref_def store_def w'_def s1_def ITERATIONS_def)
    have f: "find_unfinished (progress_threads s3) s3
               = Inr (\<exists>b\<in>set [0..<4]. unfinished (obj s3 b))"
      using find_unfinished_map[OF hs3] pt by (simp add: s3_def s1_def)
    have "on_progress_finished a s1 = Inr s4"
      unfolding on_progress_finished_def j
      using a4 lh idw f
      by (simp add: bindF_def deref_def Let_def w'_def s3_def s4_def s1_def)
    with d have eq: "deliver a (s\<lparr>pipe := remove1 a (pipe s)\<rparr>) = Inr s4" by simp
    have h43: "heap s4 = heap s3" and o43: "out s4 = out s3" and p43: "pipe s4 = pipe s3"
      and t43: "threads s4 = threads s3"
      by (simp_all add: s4_def)
    have obj43: "obj s4 b = obj s3 b" for b by (simp add: obj_def h43)
    have frame3: "worker_ok s4 b" if b: "b < 4" and ne: "b \<noteq> a" for b
      using oks[OF b] ne a4 lh
      unfolding worker_ok_def obj_def h43 o43 p43 t43
      by (auto simp: s3_def s1_def nth_list_update is_emitted_def is_received_def
          count_list_remove1_if)
    have oka: "worker_ok s4 a"
      using nine a4 lh inc ap c1 it10 idw sl em re fi' tt cr
      unfolding worker_ok_def obj_def h43 o43 p43 t43
      by (simp add: s3_def s1_def w'_def is_emitted_def is_received_def
          count_list_remove1_if unfinished_unat ITERATIONS_def)
    have pr4: "\<forall>b<4. progress_m (obj s4 b) =
        (if b = a then progress_m (obj s b) + 1 else progress_m (obj s b))"
      using a4 lh w by (simp add: obj43) (simp add: s3_def s1_def obj_def w'_def nth_list_update)
    have q3: "\<not> quit_called s3" using nq by (simp add: s3_def s1_def)
    have q4: "quit_called s4 = (\<forall>b<4. \<not> unfinished (obj s4 b))"
    proof (cases "\<exists>b\<in>set [0..<4]. unfinished (obj s3 b)")
      case True
      then have "s4 = s3" by (simp add: s4_def)
      with True q3 show ?thesis by (auto simp: obj43)
    next
      case False
      then have "s4 = s3\<lparr>quit_called := True\<rparr>" by (simp add: s4_def)
      with False show ?thesis by (auto simp: obj_def)
    qed
    have "launched s4"
      unfolding launched_def
    proof (intro conjI)
      show "\<forall>b<4. worker_ok s4 b" using oka frame3 by blast
      show "quit_called s4 = (\<forall>b<4. \<not> unfinished (obj s4 b))" by (rule q4)
      show "set (pipe s4) \<subseteq> {0..<4}" using ps1 by (simp add: p43 s3_def)
      show "length (filter is_launching (out s4)) = 1"
        using la by (simp add: o43 s3_def s1_def is_launching_def)
      show "length (filter is_emitted_line (out s4)) = sum_list (map iter (threads s4))"
        using tot by (simp add: o43 t43 s3_def s1_def is_emitted_line_def)
    qed (use pt lh to ck lt in \<open>simp_all add: s4_def s3_def s1_def\<close>)
    then show ?thesis using eq lt10 ow pr4 by blast
  qed
qed

lemma step_inv:
  assumes "inv s"
  shows "\<exists>s'. step e s = Inr s' \<and> inv s' \<and>
           (\<forall>b<4. progress_m (obj s' b) = progress_m (obj s b) \<or>
                   e = Dispatch b \<and> unat (progress_m (obj s b)) < 10 \<and>
                   progress_m (obj s' b) = progress_m (obj s b) + 1)"
proof (cases e)
  case (Tick dt)
  from assms have "idle s \<or> launched s" by (simp add: inv_def)
  then show ?thesis
  proof
    assume "idle s"
    moreover from this have "\<not> quit_called s"
      by (auto simp: idle_def waiting_def constructed_def)
    ultimately show ?thesis using tick_idle[of s dt] by (auto simp: Tick inv_def)
  next
    assume "launched s"
    with tick_launched[of s dt] show ?thesis
      by (auto simp: Tick inv_def obj_def)
  qed
next
  case (Work h r)
  from assms have "idle s \<or> launched s" by (simp add: inv_def)
  then show ?thesis
  proof
    assume "idle s"
    then show ?thesis by (auto simp: Work work_idle inv_def)
  next
    assume "launched s"
    with work_launched[of s h r] show ?thesis
      by (auto simp: Work inv_def obj_def)
  qed
next
  case (Dispatch a)
  from assms have "idle s \<or> launched s" by (simp add: inv_def)
  then show ?thesis
  proof
    assume "idle s"
    then show ?thesis using dispatch_idle[of s a] by (auto simp: Dispatch inv_def)
  next
    assume L: "launched s"
    show ?thesis
    proof (cases "quit_called s \<or> a \<notin> set (pipe s)")
      case True
      with L show ?thesis by (auto simp: Dispatch inv_def)
    next
      case False
      with deliver_launched[OF L, of a] show ?thesis
        by (auto simp: Dispatch inv_def)
    qed
  qed
qed

lemma main_loop_run_inv:
  "inv s \<Longrightarrow> \<exists>s'. main_loop_run es s = Inr s' \<and> inv s' \<and>
      (\<forall>b<4. unat (progress_m (obj s b)) \<le> unat (progress_m (obj s' b)))"
proof (induction es arbitrary: s)
  case Nil
  then show ?case by simp
next
  case (Cons e es)
  from step_inv[OF Cons.prems, of e] obtain s1 where
    s1: "step e s = Inr s1" "inv s1"
    and p: "\<forall>b<4. progress_m (obj s1 b) = progress_m (obj s b) \<or>
                   e = Dispatch b \<and> unat (progress_m (obj s b)) < 10 \<and>
                   progress_m (obj s1 b) = progress_m (obj s b) + 1"
    by blast
  from Cons.IH[OF s1(2)] obtain s' where
    s': "main_loop_run es s1 = Inr s'" "inv s'"
    and q: "\<forall>b<4. unat (progress_m (obj s1 b)) \<le> unat (progress_m (obj s' b))"
    by blast
  have "unat (progress_m (obj s b)) \<le> unat (progress_m (obj s' b))" if b: "b < 4" for b
  proof -
    from p b have "unat (progress_m (obj s b)) \<le> unat (progress_m (obj s1 b))"
      by (auto simp: unat_incr)
    with q b show ?thesis by (meson le_trans)
  qed
  with s1 s' show ?case by (simp add: bindF_def)
qed

lemma main_loop_run_append:
  "main_loop_run (es @ es') s = bindF (main_loop_run es s) (main_loop_run es')"
  by (induction es arbitrary: s) (auto simp: bindF_def split: sum.splits)

lemma inv_run_start: "inv (constructed\<lparr>timeouts := timeouts constructed @ [clock constructed + 3000]\<rparr>)"
  by (simp add: inv_def idle_def waiting_def constructed_def)

lemma sleeps_append: "sleeps (xs @ ys) = sleeps xs @ sleeps ys"
  by (induction xs rule: sleeps.induct) auto

lemma notifications_append: "notifications (xs @ ys) = notifications xs + notifications ys"
  by (induction xs rule: notifications.induct) auto

lemma thread_function_from_unfold:
  "i \<le> ITERATIONS \<Longrightarrow>
   thread_function_from the_id rand i =
     concat (map (\<lambda>k. loop_body the_id k (rand k)) [i..<ITERATIONS])"
proof (induction the_id rand i rule: thread_function_from.induct)
  case (1 the_id rand i)
  show ?case
  proof (cases "i < ITERATIONS")
    case True
    with 1 show ?thesis by (subst thread_function_from.simps) (simp add: upt_conv_Cons)
  next
    case False
    with 1 show ?thesis by (subst thread_function_from.simps) simp
  qed
qed

lemma get_int_range_image: "range (get_int_range 2000 20000) = {2000..19999}"
proof
  show "range (get_int_range 2000 20000) \<subseteq> {2000..19999}"
  proof
    fix v assume "v \<in> range (get_int_range 2000 20000)"
    then obtain r where v: "v = get_int_range 2000 20000 r" by auto
    have "unat r mod 18000 < 18000" by simp
    then show "v \<in> {2000..19999}" by (simp add: v get_int_range_def)
  qed
  show "{2000..19999} \<subseteq> range (get_int_range 2000 20000)"
  proof
    fix v :: int assume v: "v \<in> {2000..19999}"
    define r :: "32 word" where "r = of_nat (nat (v - 2000))"
    from v have n: "nat (v - 2000) < 18000" by auto
    have "unat r = nat (v - 2000) mod 2 ^ LENGTH(32)"
      unfolding r_def by (rule unat_of_nat)
    with n have "unat r = nat (v - 2000)" by simp
    with v n have "get_int_range 2000 20000 r = v"
      by (simp add: get_int_range_def)
    then show "v \<in> range (get_int_range 2000 20000)" by (metis rangeI)
  qed
qed

lemma sleeps_concat_loop_body:
  "sleeps (concat (map (\<lambda>k. loop_body the_id k (rand k)) ks)) =
     map (\<lambda>i. get_int_range 2000 20000 (rand i)) ks"
  by (induction ks) (simp_all add: loop_body_def)

lemma notifications_concat_loop_body:
  "notifications (concat (map (\<lambda>k. loop_body the_id k (rand k)) ks)) = length ks"
  by (induction ks) (simp_all add: loop_body_def)

lemma sleeps_thread_function:
  "sleeps (thread_function w rand) = map (\<lambda>i. get_int_range 2000 20000 (rand i)) [0..<ITERATIONS]"
  by (simp add: thread_function_def thread_function_from_unfold sleeps_concat_loop_body)

lemma all_place: "(\<forall>p. P p) \<longleftrightarrow> P At_new \<and> P At_connect"
  by (metis place.exhaust)

lemma ex_place: "(\<exists>p. P p) \<longleftrightarrow> P At_new \<or> P At_connect"
  by (metis place.exhaust)

lemma Application_ctor_cases:
  "(\<forall>i<4. \<forall>p. \<not> throws i p) \<and> Application_ctor fc throws = Constructed constructed \<or>
   (\<exists>i<4. \<exists>p. throws i p) \<and>
   (\<exists>s. Application_ctor fc throws = Rethrown s \<and> list_all (\<lambda>x. x = None) (heap s) \<and> out s = [])"
  by (simp add: Application_ctor_def constructed_def ThreadProgress_ctor_def store_def upt4 Let_def
      eval_nat_numeral all_place ex_place All_less_Suc Ex_less_Suc deref_def delete_ptr_def
      ThreadProgress_dtor_def g_return_if_fail_def bindF_def)

lemma dtor_constructed:
  "\<exists>s. Application_dtor fc constructed = Inr s \<and> list_all (\<lambda>x. x = None) (heap s) \<and> out s = []"
  by (simp add: Application_dtor_def constructed_def upt4 deref_def delete_ptr_def
      ThreadProgress_dtor_def g_return_if_fail_def bindF_def)

section \<open>Facts about every state of a run\<close>

lemma run_inv:
  assumes "Application_ctor fc throws = Constructed app"
  shows "\<exists>s. run es app = Inr s \<and> inv s"
proof -
  from assms have "app = constructed" by (rule ctor_constructed)
  with main_loop_run_inv[OF inv_run_start, of es] show ?thesis
    by (auto simp: run_def)
qed

lemma idle_worker:
  assumes "idle s" and "i < 4"
  shows "worker s i = Some (obj s i)" and "id_m (obj s i) = int i + 1"
    and "progress_m (obj s i) = 0" and "thread_m (obj s i) = None"
  using assms
  by (auto simp: idle_def waiting_def constructed_def worker_def deref_def obj_def)

lemma launched_worker:
  assumes "launched s" and "i < 4"
  shows "worker s i = Some (obj s i)" and "worker_ok s i"
  using assms
  by (auto simp: launched_def worker_ok_def worker_def deref_def obj_def)

lemma inv_worker:
  assumes "inv s" and "i < 4"
  shows "worker s i = Some (obj s i)"
  using assms idle_worker(1) launched_worker(1) by (auto simp: inv_def)

lemma inv_length: "inv s \<Longrightarrow> length (progress_threads s) = 4"
  by (auto simp: inv_def idle_def waiting_def constructed_def launched_def)

lemma idle_facts:
  assumes "idle s"
  shows "out s = []" and "threads s = []" and "pipe s = []" and "\<not> quit_called s"
    and "clock s < 3000" and "timeouts s = [3000]"
  using assms by (auto simp: idle_def waiting_def constructed_def)

lemma inv_progress_le:
  assumes "inv s" and "i < 4"
  shows "unat (progress_m (obj s i)) \<le> 10"
proof -
  from assms(1) have "idle s \<or> launched s" by (simp add: inv_def)
  then show ?thesis
  proof
    assume "idle s"
    with assms(2) show ?thesis by (simp add: idle_worker(3))
  next
    assume "launched s"
    from launched_worker(2)[OF this assms(2)]
    show ?thesis by (simp add: worker_ok_def ITERATIONS_def)
  qed
qed

lemma inv_quit_iff:
  assumes "inv s"
  shows "quit_called s \<longleftrightarrow> (\<forall>i<4. \<not> unfinished (obj s i) \<and> thread_m (obj s i) = None)"
proof -
  from assms have "idle s \<or> launched s" by (simp add: inv_def)
  then show ?thesis
  proof
    assume I: "idle s"
    then have "unfinished (obj s 0)"
      using idle_worker(3)[OF I, of 0] by (simp add: unfinished_unat)
    then have "\<not> (\<forall>i<4. \<not> unfinished (obj s i) \<and> thread_m (obj s i) = None)"
      by (metis zero_less_numeral)
    with I show ?thesis by (simp add: idle_facts)
  next
    assume L: "launched s"
    then have q: "quit_called s \<longleftrightarrow> (\<forall>i<4. \<not> unfinished (obj s i))"
      by (simp add: launched_def)
    have "thread_m (obj s i) = None" if "i < 4" "\<not> unfinished (obj s i)" for i
      using launched_worker(2)[OF L that(1)] that(2) by (simp add: worker_ok_def)
    with q show ?thesis by blast
  qed
qed

lemma inv_launched: "inv s \<Longrightarrow> 3000 \<le> clock s \<Longrightarrow> launched s"
  using idle_facts(5) by (fastforce simp: inv_def)

lemma inv_threads:
  assumes "inv s"
  shows "length (filter is_launching (out s)) = (if clock s < 3000 then 0 else 1)"
    and "length (threads s) = (if clock s < 3000 then 0 else 4)"
  using assms by (auto simp: inv_def idle_facts launched_def)

lemma find_unfinished_quit [simp]:
  "find_unfinished ps (s\<lparr>quit_called := b\<rparr>) = find_unfinished ps s"
  by (induction ps) (auto simp: deref_def split: option.splits)

lemma on_progress_finished_effect:
  assumes "on_progress_finished p s = Inr s'"
  shows "(\<exists>w. deref s' p = Some w \<and> thread_m w = None) \<and>
         (quit_called s' \<longleftrightarrow> quit_called s \<or> find_unfinished (progress_threads s') s' = Inr False)"
  using assms
  by (auto simp: on_progress_finished_def join_def bindF_def deref_def store_def Let_def
      split: option.splits if_splits sum.splits)

lemma ctor_no_throw: "Application_ctor False (\<lambda>i p. False) = Constructed constructed"
  using Application_ctor_cases[of "\<lambda>i p. False" False] by simp

lemmas model_defs = run_def tick_def work_def deliver_def launch_threads_def launch_def join_def
  on_progress_finished_def progress_increment_def deref_def store_def bindF_def loop_body_def
  ITERATIONS_def constructed_def unfinished_def Let_def upt4 word_le_nat_alt word_less_nat_alt

lemma rep10: "replicate 10 x = [x, x, x, x, x, x, x, x, x, x]"
  by (simp add: numeral_eq_Suc)

lemma full_run_final:
  "case run full_run constructed of
     Inl f \<Rightarrow> False
   | Inr s \<Rightarrow>
       quit_called s \<and> clock s = 3500 \<and> pipe s = [] \<and>
       progress_threads s = [Some 0, Some 1, Some 2, Some 3] \<and>
       map iter (threads s) = [10, 10, 10, 10] \<and>
       heap s = map (\<lambda>a. Some \<lparr>thread_m = None, id_m = int a + 1, progress_m = 10,
                                  signal_finished_m = [a]\<rparr>) [0, 1, 2, 3]"
  by (simp add: model_defs rep10 full_run_def)

lemma full_run_quits:
  "run full_run constructed = Inr s \<Longrightarrow> quit_called s"
  using full_run_final by simp

lemma inv_counts:
  assumes "inv s" and "i < 4"
  shows "length (filter (is_received (int i + 1)) (out s)) = unat (progress_m (obj s i))"
    and "count_list (out s) (Finished (int i + 1)) =
           (if unat (progress_m (obj s i)) = ITERATIONS then 1 else 0)"
    and "length (filter (is_emitted (int i + 1)) (out s)) \<le> ITERATIONS"
    and "id_m (obj s i) = int i + 1"
proof -
  from assms(1) have "idle s \<or> launched s" by (simp add: inv_def)
  then have "length (filter (is_received (int i + 1)) (out s)) = unat (progress_m (obj s i)) \<and>
     count_list (out s) (Finished (int i + 1)) =
           (if unat (progress_m (obj s i)) = ITERATIONS then 1 else 0) \<and>
     length (filter (is_emitted (int i + 1)) (out s)) \<le> ITERATIONS \<and>
     id_m (obj s i) = int i + 1"
  proof
    assume I: "idle s"
    with assms(2) show ?thesis
      by (simp add: idle_facts idle_worker ITERATIONS_def)
  next
    assume L: "launched s"
    from launched_worker(2)[OF L assms(2)] inv_progress_le[OF assms]
    show ?thesis
      by (auto simp: worker_ok_def unfinished_unat ITERATIONS_def)
  qed
  then show "length (filter (is_received (int i + 1)) (out s)) = unat (progress_m (obj s i))"
    and "count_list (out s) (Finished (int i + 1)) =
           (if unat (progress_m (obj s i)) = ITERATIONS then 1 else 0)"
    and "length (filter (is_emitted (int i + 1)) (out s)) \<le> ITERATIONS"
    and "id_m (obj s i) = int i + 1"
    by simp_all
qed

lemma inv_pending:
  assumes i: "inv s" and a: "a \<in> set (pipe s)"
  shows "\<exists>s'. step (Dispatch a) s = Inr s' \<and> inv s' \<and> a < 4 \<and>
           deref s a = Some (obj s a) \<and> deref s' a = Some (obj s' a) \<and>
           unat (progress_m (obj s' a)) = unat (progress_m (obj s a)) + 1"
proof -
  from i a have L: "launched s" by (auto simp: inv_def idle_facts)
  with a have a4: "a < 4" by (auto simp: launched_def)
  from launched_worker(2)[OF L a4] count_list_pos[OF a]
  have "unat (progress_m (obj s a)) < 10"
    by (simp add: worker_ok_def ITERATIONS_def)
  then have "unfinished (obj s a)" by (simp add: unfinished_unat)
  with L a4 have nq: "\<not> quit_called s" by (auto simp: launched_def)
  from deliver_launched[OF L nq a] obtain s' where
    d: "deliver a (s\<lparr>pipe := remove1 a (pipe s)\<rparr>) = Inr s'" and L': "launched s'"
    and lt: "unat (progress_m (obj s a)) < 10"
    and p: "\<forall>b<4. progress_m (obj s' b) =
                    (if b = a then progress_m (obj s b) + 1 else progress_m (obj s b))"
    by blast
  from p a4 lt have "unat (progress_m (obj s' a)) = unat (progress_m (obj s a)) + 1"
    by (simp add: unat_incr)
  moreover have "deref s a = Some (obj s a)" "deref s' a = Some (obj s' a)"
    using L L' a4 by (auto simp: launched_def worker_ok_def deref_def obj_def)
  ultimately show ?thesis using d L' nq a a4 by (auto simp: inv_def)
qed

lemma notifications_thread_function:
  "notifications (thread_function w rand) = ITERATIONS"
  by (simp add: thread_function_def thread_function_from_unfold notifications_concat_loop_body)

lemma launched_threads:
  assumes L: "launched s" and h: "h < length (threads s)"
  shows "deref s (this (threads s ! h)) = Some (obj s h)"
    and "iter (threads s ! h) \<le> ITERATIONS"
    and "length (filter (is_emitted (id_m (obj s h))) (out s)) = iter (threads s ! h)"
proof -
  from L h have h4: "h < 4" by (simp add: launched_def)
  from launched_worker(2)[OF L h4] L h4
  show "deref s (this (threads s ! h)) = Some (obj s h)"
    and "iter (threads s ! h) \<le> ITERATIONS"
    and "length (filter (is_emitted (id_m (obj s h))) (out s)) = iter (threads s ! h)"
    by (auto simp: worker_ok_def launched_def deref_def obj_def)
qed

lemma launched_quit_iters:
  assumes L: "launched s" and q: "quit_called s"
  shows "map iter (threads s) = replicate 4 ITERATIONS"
proof -
  have "iter (threads s ! h) = ITERATIONS" if h: "h < 4" for h
  proof -
    from L q h have "\<not> unfinished (obj s h)" by (simp add: launched_def)
    with launched_worker(2)[OF L h] show ?thesis
      by (simp add: worker_ok_def unfinished_unat ITERATIONS_def)
  qed
  moreover from L have "length (threads s) = 4" by (simp add: launched_def)
  ultimately show ?thesis by (simp add: list_eq_iff_nth_eq)
qed

lemma launch_threads_launches_all:
  "\<exists>s1. launch_threads (constructed\<lparr>clock := c\<rparr>) = Inr s1 \<and>
        list_all (\<lambda>i. \<exists>w. worker s1 i = Some w \<and> thread_m w = Some i) [0, 1, 2, 3] \<and>
        length (threads s1) = 4"
proof -
  have "constructed\<lparr>clock := c\<rparr> = constructed\<lparr>timeouts := [], clock := c\<rparr>"
    by (simp add: constructed_def)
  then show ?thesis
    by (simp add: launch_threads_constructed) (simp add: just_launched_def worker_def deref_def upt4)
qed

lemma inv_created:
  assumes i: "inv s" and c: "3000 \<le> clock s" and k: "k < 4"
  shows "\<exists>w. worker s k = Some w \<and> count_list (out s) (Created (id_m w) k) = 1"
proof -
  from inv_launched[OF i c] have L: "launched s" .
  from launched_worker[OF L k] show ?thesis by (simp add: worker_ok_def)
qed

lemma full_run_prefix:
  "case run [Tick 1000, Tick 2500, Tick 0, Tick 7] constructed of
     Inl f \<Rightarrow> False
   | Inr s \<Rightarrow> clock s = 3507 \<and>
              out s = [Launching 4, Created 1 0, Created 2 1, Created 3 2, Created 4 3,
                       Separator]"
  by (simp add: model_defs)

lemma inv_pointer: "inv s \<Longrightarrow> i < 4 \<Longrightarrow> progress_threads s ! i = Some i"
  by (auto simp: inv_def idle_def waiting_def constructed_def launched_def)

lemma run_append: "run (es @ es') app = bindF (run es app) (main_loop_run es')"
  by (simp add: run_def main_loop_run_append)

lemma short_run:
  "case run [Tick 3000, Work 0 5] constructed of
     Inl f \<Rightarrow> False
   | Inr s \<Rightarrow>
       (case step (Dispatch 0) s of
          Inl f \<Rightarrow> False
        | Inr s1 \<Rightarrow>
            map_option progress_m (worker s 0) = Some 0 \<and>
            map_option progress_m (worker s1 0) = Some 1)"
  by (simp add: model_defs worker_def)

lemma full_run_worker0:
  "run full_run constructed = Inr s \<Longrightarrow> map_option progress_m (worker s 0) = Some 10"
  using full_run_final by (simp add: worker_def deref_def)

text \<open>
  What one iteration of a worker thread leaves alone, in any state, and what the thread
  function is made of.
\<close>

lemma work_frame:
  assumes "work h r s = Inr s'"
  shows "heap s' = heap s \<and> progress_threads s' = progress_threads s \<and>
         quit_called s' = quit_called s \<and> timeouts s' = timeouts s \<and> clock s' = clock s \<and>
         (s' = s \<or>
          (\<exists>w. deref s (this (threads s ! h)) = Some w \<and>
               pipe s' = pipe s @ [this (threads s ! h)] \<and>
               out s' = out s @ [Emitted (id_m w) (int (iter (threads s ! h)) + 1)] \<and>
               threads s' = (threads s)[h := (threads s ! h)\<lparr>iter := Suc (iter (threads s ! h))\<rparr>]))"
  using assms
  by (auto simp: work_def Let_def loop_body_def split: if_splits option.splits)

lemma thread_function_actions:
  "set (thread_function w rand) \<subseteq>
     range Usleep \<union> range (\<lambda>k. Cout (Emitted (id_m w) k)) \<union> {Notify}"
  by (auto simp: thread_function_def thread_function_from_unfold loop_body_def)

lemma tick_quit:
  assumes i: "inv s" and t: "step (Tick dt) s = Inr s1"
  shows "quit_called s1 = quit_called s"
proof -
  from i have "idle s \<or> launched s" by (simp add: inv_def)
  then show ?thesis
  proof
    assume I: "idle s"
    then have nq: "\<not> quit_called s" by (rule idle_facts(4))
    from tick_idle[OF I, of dt] t nq have s1: "idle s1 \<or> launched s1"
      and p: "\<forall>b<4. progress_m (obj s1 b) = progress_m (obj s b)"
      by auto
    from p idle_worker(3)[OF I, of 0] have "unfinished (obj s1 0)"
      by (simp add: unfinished_unat)
    moreover from s1 have "inv s1" by (simp add: inv_def)
    ultimately have "\<not> quit_called s1"
      using inv_quit_iff[of s1] by (metis zero_less_numeral)
    with nq show ?thesis by simp
  next
    assume "launched s"
    with t show ?thesis
      by (auto simp: tick_def Let_def launched_def split: if_splits)
  qed
qed

lemma work_just_launched:
  "work 0 5 (just_launched 3000) =
     Inr ((just_launched 3000)
            \<lparr>threads := (threads (just_launched 3000))[0 := \<lparr>this = 0, iter = 1\<rparr>],
             out := out (just_launched 3000) @ [Emitted 1 1],
             pipe := [0]\<rparr>)"
  by (simp add: work_def just_launched_def deref_def loop_body_def upt4 ITERATIONS_def Let_def)

section \<open>The claims\<close>

text \<open>
  Claim C1. In every state of a run, each worker has as many lines of delivered
  notifications as its progress, its progress is at most \<open>ITERATIONS\<close>, and the line
  of \<^verbatim>\<open>on_progress_finished\<close> for it was printed once if its progress is
  \<open>ITERATIONS\<close> and never otherwise. Delivering a pending notification of a worker
  increases its progress by exactly 1.
\<close>

theorem finished_raised_once_when_progress_reaches_target:
  assumes "Application_ctor fatal_criticals throws = Constructed app"
  shows "\<exists>s. run es app = Inr s \<and>
           (\<forall>i<4. \<exists>w. worker s i = Some w \<and>
              length (filter (is_received (id_m w)) (out s)) = unat (progress_m w) \<and>
              unat (progress_m w) \<le> ITERATIONS \<and>
              count_list (out s) (Finished (id_m w)) =
                (if unat (progress_m w) = ITERATIONS then 1 else 0)) \<and>
           (\<forall>a\<in>set (pipe s). \<exists>w s' w'.
              deref s a = Some w \<and> step (Dispatch a) s = Inr s' \<and> deref s' a = Some w' \<and>
              unat (progress_m w') = unat (progress_m w) + 1)"
proof -
  from run_inv[OF assms, of es] obtain s where r: "run es app = Inr s" and i: "inv s"
    by blast
  have "\<exists>w. worker s k = Some w \<and>
              length (filter (is_received (id_m w)) (out s)) = unat (progress_m w) \<and>
              unat (progress_m w) \<le> ITERATIONS \<and>
              count_list (out s) (Finished (id_m w)) =
                (if unat (progress_m w) = ITERATIONS then 1 else 0)" if k: "k < 4" for k
    using inv_worker[OF i k] inv_counts[OF i k] inv_progress_le[OF i k]
    by (simp add: ITERATIONS_def)
  moreover have "\<exists>w s' w'.
              deref s a = Some w \<and> step (Dispatch a) s = Inr s' \<and> deref s' a = Some w' \<and>
              unat (progress_m w') = unat (progress_m w) + 1" if "a \<in> set (pipe s)" for a
    using inv_pending[OF i that] by blast
  ultimately show ?thesis using r by blast
qed

text \<open>
  Claim C1 on the full run: each worker ends with progress 10, ten deliveries and one
  finish.
\<close>

theorem finished_raised_once_when_progress_reaches_target_witness:
  "Application_ctor False (\<lambda>i p. False) = Constructed constructed \<and>
   (\<exists>s. run full_run constructed = Inr s \<and>
        list_all (\<lambda>i. \<exists>w. worker s i = Some w \<and> unat (progress_m w) = 10 \<and>
                    length (filter (is_received (id_m w)) (out s)) = 10 \<and>
                    count_list (out s) (Finished (id_m w)) = 1) [0, 1, 2, 3])"
proof -
  from finished_raised_once_when_progress_reaches_target[OF ctor_no_throw, of full_run]
  obtain s where r: "run full_run constructed = Inr s"
    and c: "\<forall>i<4. \<exists>w. worker s i = Some w \<and>
              length (filter (is_received (id_m w)) (out s)) = unat (progress_m w) \<and>
              unat (progress_m w) \<le> ITERATIONS \<and>
              count_list (out s) (Finished (id_m w)) =
                (if unat (progress_m w) = ITERATIONS then 1 else 0)"
    by blast
  from run_inv[OF ctor_no_throw, of full_run] r have i: "inv s" by auto
  from full_run_final r have "\<forall>k<4. unat (progress_m (obj s k)) = 10"
    by (simp add: all4 obj_def)
  with inv_worker[OF i] have "unat (progress_m w) = 10" if "worker s k = Some w" "k < 4" for k w
    using that by auto
  with c have "\<forall>k<4. \<exists>w. worker s k = Some w \<and> unat (progress_m w) = 10 \<and>
                    length (filter (is_received (id_m w)) (out s)) = 10 \<and>
                    count_list (out s) (Finished (id_m w)) = 1"
    by (metis ITERATIONS_def)
  with r ctor_no_throw show ?thesis
    by (simp add: all4)
qed

text \<open>
  Claim C2. In every state of a run, \<^verbatim>\<open>quit()\<close> has been called if and only if every
  worker has reached \<open>ITERATIONS\<close> and has been joined (its thread handle is null
  again); once it has been called, the progress of every worker is \<open>ITERATIONS\<close>.
  And \<^verbatim>\<open>on_progress_finished\<close>, wherever it returns, has joined the worker it was
  called for and has called \<^verbatim>\<open>quit()\<close> exactly if its scan found no unfinished worker.
\<close>

theorem loop_stops_iff_all_finished_and_joined:
  assumes "Application_ctor fatal_criticals throws = Constructed app"
  shows "(\<exists>s. run es app = Inr s \<and>
            (quit_called s \<longleftrightarrow>
               (\<forall>i<4. \<exists>w. worker s i = Some w \<and> \<not> unfinished w \<and> thread_m w = None)) \<and>
            (quit_called s \<longrightarrow>
               (\<forall>i<4. \<exists>w. worker s i = Some w \<and> unat (progress_m w) = ITERATIONS))) \<and>
         (\<forall>p s0 s1. on_progress_finished p s0 = Inr s1 \<longrightarrow>
            (\<exists>w. deref s1 p = Some w \<and> thread_m w = None) \<and>
            (quit_called s1 \<longleftrightarrow>
               quit_called s0 \<or> find_unfinished (progress_threads s1) s1 = Inr False))"
proof -
  from run_inv[OF assms, of es] obtain s where r: "run es app = Inr s" and i: "inv s"
    by blast
  have w: "worker s i = Some (obj s i)" if "i < 4" for i
    using inv_worker[OF i that] .
  have q: "quit_called s \<longleftrightarrow>
      (\<forall>i<4. \<exists>w. worker s i = Some w \<and> \<not> unfinished w \<and> thread_m w = None)"
    using inv_quit_iff[OF i] w by auto
  have "unat (progress_m (obj s i)) = ITERATIONS" if "quit_called s" "i < 4" for i
    using inv_quit_iff[OF i] inv_progress_le[OF i that(2)] that
    by (auto simp: unfinished_unat ITERATIONS_def)
  with w have t: "quit_called s \<longrightarrow>
      (\<forall>i<4. \<exists>w. worker s i = Some w \<and> unat (progress_m w) = ITERATIONS)"
    by auto
  from r q t on_progress_finished_effect show ?thesis by blast
qed

text \<open>
  Claim C2 on the full run: the loop has stopped, and every worker is finished and joined.
\<close>

theorem loop_stops_iff_all_finished_and_joined_witness:
  "Application_ctor False (\<lambda>i p. False) = Constructed constructed \<and>
   (\<exists>s. run full_run constructed = Inr s \<and> quit_called s \<and>
        list_all (\<lambda>i. \<exists>w. worker s i = Some w \<and> \<not> unfinished w \<and> thread_m w = None) [0, 1, 2, 3])"
proof -
  from loop_stops_iff_all_finished_and_joined[OF ctor_no_throw, of full_run]
  obtain s where r: "run full_run constructed = Inr s"
    and q: "quit_called s \<longleftrightarrow>
      (\<forall>i<4. \<exists>w. worker s i = Some w \<and> \<not> unfinished w \<and> thread_m w = None)"
    by blast
  from full_run_quits r have "quit_called s" .
  with q r ctor_no_throw show ?thesis by (auto simp: all4)
qed

text \<open>
  Claim C3. \<^verbatim>\<open>thread_function\<close> is ten runs of the loop body, each with one notification:
  ten notifications. In every state of a run, each thread has sent as many notifications
  as it has run iterations, at most 10, and the output has one such line for each
  iteration of each thread; once the loop has stopped, each of the four threads has run
  its 10 iterations and 40 notifications were sent.
\<close>

theorem each_worker_sends_exactly_ten_notifications:
  assumes "Application_ctor fatal_criticals throws = Constructed app"
  shows "thread_function w rand =
           concat (map (\<lambda>i. loop_body (id_m w) i (rand i)) [0..<ITERATIONS]) \<and>
         notifications (thread_function w rand) = 10 \<and>
         (\<exists>s. run es app = Inr s \<and>
            (\<forall>h<length (threads s). \<exists>w'.
               deref s (this (threads s ! h)) = Some w' \<and>
               iter (threads s ! h) \<le> 10 \<and>
               length (filter (is_emitted (id_m w')) (out s)) = iter (threads s ! h)) \<and>
            length (filter is_emitted_line (out s)) = sum_list (map iter (threads s)) \<and>
            (quit_called s \<longrightarrow>
               map iter (threads s) = [10, 10, 10, 10] \<and>
               length (filter is_emitted_line (out s)) = 40))"
proof -
  from run_inv[OF assms, of es] obtain s where r: "run es app = Inr s" and i: "inv s"
    by blast
  from i have "idle s \<or> launched s" by (simp add: inv_def)
  then have "(\<forall>h<length (threads s). \<exists>w'.
               deref s (this (threads s ! h)) = Some w' \<and>
               iter (threads s ! h) \<le> 10 \<and>
               length (filter (is_emitted (id_m w')) (out s)) = iter (threads s ! h)) \<and>
            length (filter is_emitted_line (out s)) = sum_list (map iter (threads s)) \<and>
            (quit_called s \<longrightarrow>
               map iter (threads s) = [10, 10, 10, 10] \<and>
               length (filter is_emitted_line (out s)) = 40)"
  proof
    assume "idle s"
    then show ?thesis by (simp add: idle_facts)
  next
    assume L: "launched s"
    have "\<exists>w'. deref s (this (threads s ! h)) = Some w' \<and>
               iter (threads s ! h) \<le> 10 \<and>
               length (filter (is_emitted (id_m w')) (out s)) = iter (threads s ! h)"
      if "h < length (threads s)" for h
      using launched_threads[OF L that] by (simp add: ITERATIONS_def)
    moreover from L have t: "length (filter is_emitted_line (out s)) = sum_list (map iter (threads s))"
      by (simp add: launched_def)
    moreover have "map iter (threads s) = [10, 10, 10, 10] \<and>
               length (filter is_emitted_line (out s)) = 40" if "quit_called s"
      using launched_quit_iters[OF L that] t
      by (simp add: ITERATIONS_def numeral_eq_Suc)
    ultimately show ?thesis by blast
  qed
  with r show ?thesis
    by (auto simp: thread_function_def thread_function_from_unfold notifications_concat_loop_body
        ITERATIONS_def)
qed

text \<open>
  Claim C3 on the full run: the loop has stopped, every thread has run 10 iterations and
  40 notifications were sent.
\<close>

theorem each_worker_sends_exactly_ten_notifications_witness:
  "Application_ctor False (\<lambda>i p. False) = Constructed constructed \<and>
   notifications (thread_function (ThreadProgress_ctor 1) (\<lambda>i. 5)) = 10 \<and>
   (\<exists>s. run full_run constructed = Inr s \<and> quit_called s \<and>
        map iter (threads s) = [10, 10, 10, 10] \<and>
        length (filter is_emitted_line (out s)) = 40)"
proof -
  note t = each_worker_sends_exactly_ten_notifications
         [OF ctor_no_throw, of "ThreadProgress_ctor 1" "\<lambda>i. 5" full_run]
  from t have n: "notifications (thread_function (ThreadProgress_ctor 1) (\<lambda>i. 5)) = 10"
    by (elim conjE)
  from t obtain s where r: "run full_run constructed = Inr s"
    and q: "quit_called s \<longrightarrow>
               map iter (threads s) = [10, 10, 10, 10] \<and>
               length (filter is_emitted_line (out s)) = 40"
    by (elim conjE exE)
  from full_run_quits[OF r] q
  have "map iter (threads s) = [10, 10, 10, 10] \<and>
        length (filter is_emitted_line (out s)) = 40" by (rule rev_mp)
  with r n ctor_no_throw full_run_quits[OF r] show ?thesis
    by (intro conjI exI[of _ s]) simp_all
qed

text \<open>
  Claim C4, as amended. Destroying a worker whose thread handle is not null fails the check
  of the destructor, and that is never silent: a critical message is logged. It is fatal
  only where the environment has made critical messages fatal; otherwise the destructor
  returns, the object is freed and the program goes on.
\<close>

theorem destroying_unjoined_worker_logs_critical:
  assumes "deref s a = Some w" and "thread_m w \<noteq> None"
  shows "ThreadProgress_dtor fatal_criticals w =
           (if fatal_criticals then Aborted else Critical_logged) \<and>
         delete_ptr fatal_criticals (Some a) s =
           (if fatal_criticals then Inl Process_aborted
            else Inr (s\<lparr>heap := (heap s)[a := None], out := out s @ [Critical]\<rparr>))"
  using assms by (simp add: delete_ptr_def ThreadProgress_dtor_def g_return_if_fail_def)

text \<open>
  Claim C4, the amended statement at a worker that was launched and not joined, with
  critical messages not fatal.
\<close>

theorem destroying_unjoined_worker_logs_critical_witness:
  "deref (just_launched 3000) 0 =
     Some \<lparr>thread_m = Some 0, id_m = 1, progress_m = 0, signal_finished_m = [0]\<rparr> \<and>
   delete_ptr False (Some 0) (just_launched 3000) =
     Inr ((just_launched 3000)
            \<lparr>heap := (heap (just_launched 3000))[0 := None],
             out := out (just_launched 3000) @ [Critical]\<rparr>)"
proof -
  have d: "deref (just_launched 3000) 0 =
      Some \<lparr>thread_m = Some 0, id_m = 1, progress_m = 0, signal_finished_m = [0]\<rparr>"
    by (simp add: deref_def just_launched_def upt4)
  have t: "thread_m \<lparr>thread_m = Some 0, id_m = 1, progress_m = 0, signal_finished_m = [0]\<rparr> \<noteq> None"
    by simp
  from destroying_unjoined_worker_logs_critical[OF d t, of False] d
  show ?thesis by simp
qed

text \<open>
  Claim C4 as stated fails: with critical messages not fatal, the destructor of a worker
  with a thread handle logs the message and returns, and destroying an application whose
  four workers were launched and not joined does not abort the process.
\<close>

theorem destroying_unjoined_worker_is_not_fatal:
  "ThreadProgress_dtor False ((ThreadProgress_ctor 1)\<lparr>thread_m := Some 0\<rparr>) = Critical_logged \<and>
   Application_dtor False (just_launched 3000) \<noteq> Inl Process_aborted"
  by (simp add: ThreadProgress_dtor_def g_return_if_fail_def ThreadProgress_ctor_def
      Application_dtor_def just_launched_def upt4 delete_ptr_def deref_def bindF_def)

text \<open>
  Claim C5, as amended. Each of the ten iterations of a worker sleeps for
  \<^verbatim>\<open>get_int_range(2000, 20000)\<close> microseconds, and the values of that draw are exactly
  2000..19999: both 2000 and 19999 can be drawn, and nothing outside.
\<close>

theorem sleep_is_drawn_from_half_open_range:
  "sleeps (thread_function w rand) =
     map (\<lambda>i. get_int_range 2000 20000 (rand i)) [0..<ITERATIONS] \<and>
   range (get_int_range 2000 20000) = {2000..19999}"
  by (simp add: sleeps_thread_function get_int_range_image)

text \<open>
  Claim C5 as stated fails: the upper endpoint, 20000 microseconds, is not a value of the
  draw.
\<close>

theorem sleep_of_20000_is_never_drawn:
  "20000 \<notin> range (get_int_range 2000 20000)"
  by (simp add: get_int_range_image)

text \<open>
  Claim C6. If iteration \<open>i\<close> of the constructor's loop throws, at either place, the
  constructor rethrows, and by then every worker that \<^verbatim>\<open>new\<close> created has been destroyed:
  no object is left in the heap (and no destructor check failed).
\<close>

theorem constructor_failure_destroys_created_workers:
  assumes "i < 4" and "throws i p"
  shows "\<exists>s. Application_ctor fatal_criticals throws = Rethrown s \<and>
             list_all (\<lambda>x. x = None) (heap s) \<and> out s = []"
  using Application_ctor_cases[of throws fatal_criticals] assms by blast

text \<open>
  Claim C6 where the third worker's \<^verbatim>\<open>connect\<close> throws: three workers were created
  and all three are destroyed.
\<close>

theorem constructor_failure_destroys_created_workers_witness:
  "(2::nat) < 4 \<and>
   Application_ctor False (\<lambda>i p. i = 2 \<and> p = At_connect) =
     Rethrown \<lparr>heap = [None, None, None],
               progress_threads = [Some 0, Some 1, Some 2, None], quit_called = False,
               timeouts = [], clock = 0, pipe = [], threads = [], out = []\<rparr> \<and>
   (\<exists>s. Application_ctor False (\<lambda>i p. i = 2 \<and> p = At_connect) = Rethrown s \<and>
        list_all (\<lambda>x. x = None) (heap s) \<and> out s = [])"
proof -
  have "Application_ctor False (\<lambda>i p. i = 2 \<and> p = At_connect) =
     Rethrown \<lparr>heap = [None, None, None],
               progress_threads = [Some 0, Some 1, Some 2, None], quit_called = False,
               timeouts = [], clock = 0, pipe = [], threads = [], out = []\<rparr>"
    by (simp add: Application_ctor_def ThreadProgress_ctor_def store_def Let_def
        numeral_eq_Suc deref_def delete_ptr_def ThreadProgress_dtor_def g_return_if_fail_def
        bindF_def)
  with constructor_failure_destroys_created_workers
         [of 2 "\<lambda>i p. i = 2 \<and> p = At_connect" At_connect False]
  show ?thesis by simp
qed

text \<open>
  Claim C7. \<^verbatim>\<open>run()\<close> installs the one-shot timeout handler with 3000 ms. In every
  state of a run, whatever the number of timer events, \<^verbatim>\<open>launch_threads\<close> has run
  never before 3000 ms have passed and exactly once after; from then on there are four
  threads, one created for each worker. And \<^verbatim>\<open>launch_threads\<close> launches each of the
  four workers.
\<close>

theorem launch_threads_fires_once_after_3000_ms:
  assumes "Application_ctor fatal_criticals throws = Constructed app"
  shows "run [] app = Inr (app\<lparr>timeouts := [3000]\<rparr>) \<and>
         (\<exists>s. run es app = Inr s \<and>
            length (filter is_launching (out s)) = (if clock s < 3000 then 0 else 1) \<and>
            length (threads s) = (if clock s < 3000 then 0 else 4) \<and>
            (3000 \<le> clock s \<longrightarrow>
               (\<forall>i<4. \<exists>w. worker s i = Some w \<and>
                         count_list (out s) (Created (id_m w) i) = 1))) \<and>
         (\<exists>s1. launch_threads (app\<lparr>clock := c\<rparr>) = Inr s1 \<and>
            list_all (\<lambda>i. \<exists>w. worker s1 i = Some w \<and> thread_m w = Some i) [0, 1, 2, 3] \<and>
            length (threads s1) = 4)"
proof -
  from assms have app: "app = constructed" by (rule ctor_constructed)
  from run_inv[OF assms, of es] obtain s where r: "run es app = Inr s" and i: "inv s"
    by blast
  have "run [] app = Inr (app\<lparr>timeouts := [3000]\<rparr>)"
    by (simp add: app run_def constructed_def)
  moreover have "3000 \<le> clock s \<longrightarrow>
               (\<forall>i<4. \<exists>w. worker s i = Some w \<and>
                         count_list (out s) (Created (id_m w) i) = 1)"
    using inv_created[OF i] by blast
  ultimately have "run [] app = Inr (app\<lparr>timeouts := [3000]\<rparr>) \<and>
         (\<exists>s. run es app = Inr s \<and>
            length (filter is_launching (out s)) = (if clock s < 3000 then 0 else 1) \<and>
            length (threads s) = (if clock s < 3000 then 0 else 4) \<and>
            (3000 \<le> clock s \<longrightarrow>
               (\<forall>i<4. \<exists>w. worker s i = Some w \<and>
                         count_list (out s) (Created (id_m w) i) = 1)))"
    using r inv_threads[OF i] by (intro conjI exI[of _ s]) simp_all
  with launch_threads_launches_all[of c] show ?thesis
    by (simp only: app simp_thms)
qed

text \<open>
  Claim C7 on four timer events, the second of which passes 3000 ms: one launch, four
  threads.
\<close>

theorem launch_threads_fires_once_after_3000_ms_witness:
  "Application_ctor False (\<lambda>i p. False) = Constructed constructed \<and>
   (\<exists>s. run [Tick 1000, Tick 2500, Tick 0, Tick 7] constructed = Inr s \<and>
        clock s = 3507 \<and> length (filter is_launching (out s)) = 1 \<and>
        length (threads s) = 4 \<and>
        list_all (\<lambda>i. \<exists>w. worker s i = Some w \<and>
                    count_list (out s) (Created (id_m w) i) = 1) [0, 1, 2, 3])"
proof -
  note t = launch_threads_fires_once_after_3000_ms
             [OF ctor_no_throw, of "[Tick 1000, Tick 2500, Tick 0, Tick 7]" 0]
  from t obtain s where r: "run [Tick 1000, Tick 2500, Tick 0, Tick 7] constructed = Inr s"
    and l: "length (threads s) = (if clock s < 3000 then 0 else 4)"
    and c: "3000 \<le> clock s \<longrightarrow>
               (\<forall>i<4. \<exists>w. worker s i = Some w \<and>
                         count_list (out s) (Created (id_m w) i) = 1)"
    by (elim conjE exE)
  from full_run_prefix r have k: "clock s = 3507"
    and n: "length (filter is_launching (out s)) = 1"
    by (simp_all add: is_launching_def)
  with c have "\<forall>i<4. \<exists>w. worker s i = Some w \<and>
                         count_list (out s) (Created (id_m w) i) = 1"
    by simp
  with r k n l ctor_no_throw show ?thesis
    by (intro conjI exI[of _ s]) (simp_all add: all4)
qed

text \<open>
  Claim C8. The worker thread only sleeps, prints its line and emits the notification:
  in any state, one iteration of it leaves every \<^verbatim>\<open>ThreadProgress\<close> object, the vector
  of workers and the main loop (quit flag, timeouts, time) as they are, and adds one
  pending notification. In every state of a run, an event that changes the progress of
  a worker, or the number of times its finished callback has run, is the main loop
  delivering a notification of that worker, and only such a delivery calls
  \<^verbatim>\<open>quit()\<close>. The program has no lock, and neither has the model.
\<close>

theorem worker_thread_only_notifies:
  assumes "Application_ctor fatal_criticals throws = Constructed app"
  shows "set (thread_function w rand) \<subseteq>
           range Usleep \<union> range (\<lambda>k. Cout (Emitted (id_m w) k)) \<union> {Notify} \<and>
         (\<forall>h r s0 s0'. work h r s0 = Inr s0' \<longrightarrow>
            heap s0' = heap s0 \<and> progress_threads s0' = progress_threads s0 \<and>
            quit_called s0' = quit_called s0 \<and> timeouts s0' = timeouts s0 \<and>
            clock s0' = clock s0 \<and>
            (s0' = s0 \<or>
             (\<exists>w0. deref s0 (this (threads s0 ! h)) = Some w0 \<and>
                pipe s0' = pipe s0 @ [this (threads s0 ! h)] \<and>
                out s0' = out s0 @ [Emitted (id_m w0) (int (iter (threads s0 ! h)) + 1)] \<and>
                threads s0' =
                  (threads s0)[h := (threads s0 ! h)\<lparr>iter := Suc (iter (threads s0 ! h))\<rparr>]))) \<and>
         (\<exists>s. run es app = Inr s \<and>
            (\<exists>s1. step e s = Inr s1 \<and>
               (quit_called s1 \<noteq> quit_called s \<longrightarrow> (\<exists>a. e = Dispatch a)) \<and>
               (\<forall>i<4. \<exists>w0 w1. worker s i = Some w0 \<and> worker s1 i = Some w1 \<and>
                  (progress_m w1 \<noteq> progress_m w0 \<longrightarrow> e = Dispatch i) \<and>
                  (count_list (out s1) (Finished (id_m w0)) \<noteq>
                     count_list (out s) (Finished (id_m w0)) \<longrightarrow> e = Dispatch i))))"
proof -
  from run_inv[OF assms, of es] obtain s where r: "run es app = Inr s" and i: "inv s"
    by blast
  from step_inv[OF i, of e] obtain s1 where s1: "step e s = Inr s1" and i1: "inv s1"
    and p: "\<forall>b<4. progress_m (obj s1 b) = progress_m (obj s b) \<or>
                   e = Dispatch b \<and> unat (progress_m (obj s b)) < 10 \<and>
                   progress_m (obj s1 b) = progress_m (obj s b) + 1"
    by blast
  have q: "quit_called s1 \<noteq> quit_called s \<longrightarrow> (\<exists>a. e = Dispatch a)"
  proof (cases e)
    case (Tick dt)
    with tick_quit[OF i, of dt s1] s1 show ?thesis by simp
  next
    case (Work h r)
    with work_frame[of h r s s1] s1 show ?thesis by simp
  next
    case (Dispatch a)
    then show ?thesis by simp
  qed
  have per: "\<exists>w0 w1. worker s k = Some w0 \<and> worker s1 k = Some w1 \<and>
                  (progress_m w1 \<noteq> progress_m w0 \<longrightarrow> e = Dispatch k) \<and>
                  (count_list (out s1) (Finished (id_m w0)) \<noteq>
                     count_list (out s) (Finished (id_m w0)) \<longrightarrow> e = Dispatch k)"
    if k: "k < 4" for k
  proof -
    from p k have a: "progress_m (obj s1 k) \<noteq> progress_m (obj s k) \<longrightarrow> e = Dispatch k"
      by auto
    have "count_list (out s1) (Finished (id_m (obj s k))) \<noteq>
            count_list (out s) (Finished (id_m (obj s k))) \<longrightarrow>
          progress_m (obj s1 k) \<noteq> progress_m (obj s k)"
      using inv_counts(2,4)[OF i k] inv_counts(2)[OF i1 k] by auto
    with a inv_worker[OF i k] inv_worker[OF i1 k] show ?thesis by auto
  qed
  from r s1 q per have "\<exists>s. run es app = Inr s \<and>
            (\<exists>s1. step e s = Inr s1 \<and>
               (quit_called s1 \<noteq> quit_called s \<longrightarrow> (\<exists>a. e = Dispatch a)) \<and>
               (\<forall>i<4. \<exists>w0 w1. worker s i = Some w0 \<and> worker s1 i = Some w1 \<and>
                  (progress_m w1 \<noteq> progress_m w0 \<longrightarrow> e = Dispatch i) \<and>
                  (count_list (out s1) (Finished (id_m w0)) \<noteq>
                     count_list (out s) (Finished (id_m w0)) \<longrightarrow> e = Dispatch i)))"
    by blast
  moreover have "\<forall>h r s0 s0'. work h r s0 = Inr s0' \<longrightarrow>
            heap s0' = heap s0 \<and> progress_threads s0' = progress_threads s0 \<and>
            quit_called s0' = quit_called s0 \<and> timeouts s0' = timeouts s0 \<and>
            clock s0' = clock s0 \<and>
            (s0' = s0 \<or>
             (\<exists>w0. deref s0 (this (threads s0 ! h)) = Some w0 \<and>
                pipe s0' = pipe s0 @ [this (threads s0 ! h)] \<and>
                out s0' = out s0 @ [Emitted (id_m w0) (int (iter (threads s0 ! h)) + 1)] \<and>
                threads s0' =
                  (threads s0)[h := (threads s0 ! h)\<lparr>iter := Suc (iter (threads s0 ! h))\<rparr>]))"
    using work_frame by (intro allI impI)
  ultimately show ?thesis
    using thread_function_actions[of w rand] by (intro conjI)
qed

text \<open>
  Claim C8 at the first iteration of the first thread after the launch, which changes no
  object, and at the delivery that follows, which takes worker 1 from progress 0 to 1.
\<close>

theorem worker_thread_only_notifies_witness:
  "Application_ctor False (\<lambda>i p. False) = Constructed constructed \<and>
   work 0 5 (just_launched 3000) =
     Inr ((just_launched 3000)
            \<lparr>threads := (threads (just_launched 3000))[0 := \<lparr>this = 0, iter = 1\<rparr>],
             out := out (just_launched 3000) @ [Emitted 1 1],
             pipe := [0]\<rparr>) \<and>
   heap ((just_launched 3000)
            \<lparr>threads := (threads (just_launched 3000))[0 := \<lparr>this = 0, iter = 1\<rparr>],
             out := out (just_launched 3000) @ [Emitted 1 1],
             pipe := [0]\<rparr>) = heap (just_launched 3000) \<and>
   (\<exists>s. run [Tick 3000, Work 0 5] constructed = Inr s \<and>
      (\<exists>s1. step (Dispatch 0) s = Inr s1 \<and>
         map_option progress_m (worker s 0) = Some 0 \<and>
         map_option progress_m (worker s1 0) = Some 1))"
proof -
  note t = worker_thread_only_notifies
             [OF ctor_no_throw, of "ThreadProgress_ctor 1" "\<lambda>i. 5" "[Tick 3000, Work 0 5]"
               "Dispatch 0"]
  from t have f: "\<forall>h r s0 s0'. work h r s0 = Inr s0' \<longrightarrow> heap s0' = heap s0"
    by blast
  from f work_just_launched have h: "heap ((just_launched 3000)
            \<lparr>threads := (threads (just_launched 3000))[0 := \<lparr>this = 0, iter = 1\<rparr>],
             out := out (just_launched 3000) @ [Emitted 1 1],
             pipe := [0]\<rparr>) = heap (just_launched 3000)"
    by blast
  from t obtain s s1 where r: "run [Tick 3000, Work 0 5] constructed = Inr s"
    and s1: "step (Dispatch 0) s = Inr s1"
    by (elim conjE exE)
  from short_run r s1 have "\<exists>s. run [Tick 3000, Work 0 5] constructed = Inr s \<and>
      (\<exists>s1. step (Dispatch 0) s = Inr s1 \<and>
         map_option progress_m (worker s 0) = Some 0 \<and>
         map_option progress_m (worker s1 0) = Some 1)"
    by simp
  with ctor_no_throw work_just_launched h show ?thesis by (intro conjI)
qed

text \<open>
  Claim C9. From every state of a run, one more event leaves the progress of a worker as
  it is, or it is the delivery of a notification to that worker and adds exactly 1; and
  after any further events the progress of each worker is at least what it was, and a
  worker that was finished is still finished.
\<close>

theorem progress_never_decreases:
  assumes "Application_ctor fatal_criticals throws = Constructed app"
  shows "\<exists>s. run es app = Inr s \<and>
           (\<exists>s1. step e s = Inr s1 \<and>
              (\<forall>i<4. \<exists>w w1. worker s i = Some w \<and> worker s1 i = Some w1 \<and>
                 (progress_m w1 = progress_m w \<or>
                  progress_threads s ! i = Some i \<and> e = Dispatch i \<and>
                  unat (progress_m w1) = unat (progress_m w) + 1))) \<and>
           (\<exists>s'. run (es @ es') app = Inr s' \<and>
              (\<forall>i<4. \<exists>w w'. worker s i = Some w \<and> worker s' i = Some w' \<and>
                 unat (progress_m w) \<le> unat (progress_m w') \<and>
                 (\<not> unfinished w \<longrightarrow> \<not> unfinished w')))"
proof -
  from run_inv[OF assms, of es] obtain s where r: "run es app = Inr s" and i: "inv s"
    by blast
  from step_inv[OF i, of e] obtain s1 where s1: "step e s = Inr s1" and i1: "inv s1"
    and p: "\<forall>b<4. progress_m (obj s1 b) = progress_m (obj s b) \<or>
                   e = Dispatch b \<and> unat (progress_m (obj s b)) < 10 \<and>
                   progress_m (obj s1 b) = progress_m (obj s b) + 1"
    by blast
  have one: "\<exists>w w1. worker s k = Some w \<and> worker s1 k = Some w1 \<and>
                 (progress_m w1 = progress_m w \<or>
                  progress_threads s ! k = Some k \<and> e = Dispatch k \<and>
                  unat (progress_m w1) = unat (progress_m w) + 1)" if k: "k < 4" for k
  proof -
    from p k have "progress_m (obj s1 k) = progress_m (obj s k) \<or>
        e = Dispatch k \<and> unat (progress_m (obj s1 k)) = unat (progress_m (obj s k)) + 1"
      by (auto simp: unat_incr)
    with inv_worker[OF i k] inv_worker[OF i1 k] inv_pointer[OF i k] show ?thesis by auto
  qed
  from main_loop_run_inv[OF i, of es'] obtain s' where s': "main_loop_run es' s = Inr s'"
    and i': "inv s'"
    and m: "\<forall>b<4. unat (progress_m (obj s b)) \<le> unat (progress_m (obj s' b))"
    by blast
  have r': "run (es @ es') app = Inr s'"
    by (simp add: run_append r s' bindF_def)
  have many: "\<exists>w w'. worker s k = Some w \<and> worker s' k = Some w' \<and>
                 unat (progress_m w) \<le> unat (progress_m w') \<and>
                 (\<not> unfinished w \<longrightarrow> \<not> unfinished w')" if k: "k < 4" for k
    using inv_worker[OF i k] inv_worker[OF i' k] m k
    by (auto simp: unfinished_unat)
  from r s1 one r' many show ?thesis by blast
qed

text \<open>
  Claim C9 at a delivery that takes worker 1 from progress 0 to 1, and after the full
  run, where worker 1 is finished and stays so under further events.
\<close>

theorem progress_never_decreases_witness:
  "Application_ctor False (\<lambda>i p. False) = Constructed constructed \<and>
   (\<exists>s. run [Tick 3000, Work 0 5] constructed = Inr s \<and>
      (\<exists>s1. step (Dispatch 0) s = Inr s1 \<and>
         map_option progress_m (worker s 0) = Some 0 \<and>
         map_option progress_m (worker s1 0) = Some 1)) \<and>
   (\<exists>s. run full_run constructed = Inr s \<and>
      (\<exists>s'. run (full_run @ [Tick 5, Work 0 7, Dispatch 0]) constructed = Inr s' \<and>
         (\<exists>w w'. worker s 0 = Some w \<and> worker s' 0 = Some w' \<and>
            \<not> unfinished w \<and> \<not> unfinished w' \<and>
            unat (progress_m w) \<le> unat (progress_m w'))))"
proof -
  note a = progress_never_decreases
             [OF ctor_no_throw, of "[Tick 3000, Work 0 5]" "Dispatch 0" "[]"]
  from a obtain s s1 where r: "run [Tick 3000, Work 0 5] constructed = Inr s"
    and s1: "step (Dispatch 0) s = Inr s1"
    by (elim conjE exE)
  from short_run r s1 have one: "\<exists>s. run [Tick 3000, Work 0 5] constructed = Inr s \<and>
      (\<exists>s1. step (Dispatch 0) s = Inr s1 \<and>
         map_option progress_m (worker s 0) = Some 0 \<and>
         map_option progress_m (worker s1 0) = Some 1)"
    by simp
  note b = progress_never_decreases
             [OF ctor_no_throw, of full_run "Tick 0" "[Tick 5, Work 0 7, Dispatch 0]"]
  from b obtain t t' where rt: "run full_run constructed = Inr t"
    and rt': "run (full_run @ [Tick 5, Work 0 7, Dispatch 0]) constructed = Inr t'"
    and m: "\<forall>i<4. \<exists>w w'. worker t i = Some w \<and> worker t' i = Some w' \<and>
                 unat (progress_m w) \<le> unat (progress_m w') \<and>
                 (\<not> unfinished w \<longrightarrow> \<not> unfinished w')"
    by (elim conjE exE)
  from m obtain w w' where w: "worker t 0 = Some w" "worker t' 0 = Some w'"
    "unat (progress_m w) \<le> unat (progress_m w')" "\<not> unfinished w \<longrightarrow> \<not> unfinished w'"
    by (metis zero_less_numeral)
  from full_run_worker0[OF rt] w(1) have "\<not> unfinished w"
    by (simp add: unfinished_def ITERATIONS_def)
  with w rt rt' have two: "\<exists>s. run full_run constructed = Inr s \<and>
      (\<exists>s'. run (full_run @ [Tick 5, Work 0 7, Dispatch 0]) constructed = Inr s' \<and>
         (\<exists>w w'. worker s 0 = Some w \<and> worker s' 0 = Some w' \<and>
            \<not> unfinished w \<and> \<not> unfinished w' \<and>
            unat (progress_m w) \<le> unat (progress_m w')))"
    by auto
  from ctor_no_throw one two show ?thesis by (intro conjI)
qed

text \<open>
  Claim C10. A fresh worker has progress 0, is unfinished and has a null thread handle,
  so its destructor's check passes. Hence the cleanup of a failed construction and the
  destructor of an application that never launched its workers log nothing, abort
  nothing and free every worker.
\<close>

theorem fresh_worker_passes_destructor_check:
  "progress_m (ThreadProgress_ctor the_id) = 0 \<and>
   unfinished (ThreadProgress_ctor the_id) \<and>
   thread_m (ThreadProgress_ctor the_id) = None \<and>
   ThreadProgress_dtor fatal_criticals (ThreadProgress_ctor the_id) = Passed \<and>
   (case Application_ctor fatal_criticals throws of
      Constructed s \<Rightarrow>
        (case Application_dtor fatal_criticals s of
           Inl f \<Rightarrow> False
         | Inr s' \<Rightarrow> out s' = [] \<and> list_all (\<lambda>x. x = None) (heap s'))
    | Rethrown s \<Rightarrow> out s = [] \<and> list_all (\<lambda>x. x = None) (heap s)
    | Broken f \<Rightarrow> False)"
proof -
  have "case Application_ctor fatal_criticals throws of
      Constructed s \<Rightarrow>
        (case Application_dtor fatal_criticals s of
           Inl f \<Rightarrow> False
         | Inr s' \<Rightarrow> out s' = [] \<and> list_all (\<lambda>x. x = None) (heap s'))
    | Rethrown s \<Rightarrow> out s = [] \<and> list_all (\<lambda>x. x = None) (heap s)
    | Broken f \<Rightarrow> False"
    using Application_ctor_cases[of throws fatal_criticals] dtor_constructed[of fatal_criticals]
    by auto
  then show ?thesis
    by (simp add: ThreadProgress_ctor_def unfinished_def ITERATIONS_def ThreadProgress_dtor_def
        g_return_if_fail_def)
qed

end
